theory Spec2Isabelle
  imports Complex_Main "HOL-Library.Log_Nat"
begin

section \<open>Python values and exceptions\<close>

text \<open>
  The handler of \<^verbatim>\<open>google_drive_handler.py\<close> is embedded as pure functions.
  Every exception the source can raise is a value: a call returns \<open>exn + 'a\<close>,
  with \<open>Inl\<close> the exception that leaves the call. Only subclasses of Python's
  \<^verbatim>\<open>Exception\<close> are modelled (what the store client, the file system and
  the built-ins raise), so \<^verbatim>\<open>except Exception\<close> catches every \<open>exn\<close>.
\<close>

datatype exn =
    HttpError
  | TimeoutError
  | FileNotFoundError
  | PermissionError
  | ValueError
  | TypeError
  | OverflowError
  | ZeroDivisionError

text \<open>
  The dynamically typed values that reach the handler or leave it. Strings are
  sequences of code points below 256.
\<close>

datatype pyval =
    PyNone
  | PyBool bool
  | PyInt int
  | PyStr string

section \<open>Built-ins used by the size formatter\<close>

subsection \<open>\<^verbatim>\<open>str(int)\<close>\<close>

definition digit_char :: "nat \<Rightarrow> char" where
  "digit_char d = char_of (48 + d)"

function str_nat :: "nat \<Rightarrow> string" where
  "str_nat n = (if n < 10 then [digit_char n] else str_nat (n div 10) @ [digit_char (n mod 10)])"
  by pat_completeness auto
termination
  by (relation "measure id") auto

definition str_int :: "int \<Rightarrow> string" where
  "str_int b = (if b < 0 then ''-'' @ str_nat (nat (- b)) else str_nat (nat b))"

text \<open>
  CPython's default limit on conversions between integers and decimal strings
  (\<^verbatim>\<open>sys.int_max_str_digits\<close>): a conversion of more than 4300 digits, in either
  direction, raises \<^verbatim>\<open>ValueError\<close>. The sign is not counted.
\<close>

definition int_max_str_digits :: nat where
  "int_max_str_digits = 4300"

definition py_str_int :: "int \<Rightarrow> exn + string" where
  "py_str_int b =
     (if int_max_str_digits < length (str_nat (nat \<bar>b\<bar>)) then Inl ValueError
      else Inr (str_int b))"

subsection \<open>\<^verbatim>\<open>int(x)\<close>\<close>

text \<open>
  \<^verbatim>\<open>int(s)\<close> on a string, base 10: surrounding whitespace is stripped, one
  optional sign, then decimal digits in which single underscores may separate digits.
  Anything else is a \<^verbatim>\<open>ValueError\<close>, and so is a string with more than
  \<open>int_max_str_digits\<close> digit characters (leading zeros count, underscores, sign
  and whitespace do not). The whitespace \<^verbatim>\<open>int\<close> strips is tab, line feed,
  vertical tab, form feed, carriage return and space, and beyond ASCII the next-line
  and no-break-space characters; the separators 28 to 31 are not stripped.
\<close>

definition is_space :: "char \<Rightarrow> bool" where
  "is_space c = (let k = of_char c :: nat in
     (9 \<le> k \<and> k \<le> 13) \<or> k = 32 \<or> k = 133 \<or> k = 160)"

definition is_digit :: "char \<Rightarrow> bool" where
  "is_digit c = (let k = of_char c :: nat in 48 \<le> k \<and> k \<le> 57)"

definition digit_val :: "char \<Rightarrow> int" where
  "digit_val c = int (of_char c) - 48"

definition strip :: "string \<Rightarrow> string" where
  "strip s = rev (dropWhile is_space (rev (dropWhile is_space s)))"

fun parse_digits :: "int \<Rightarrow> string \<Rightarrow> int option" where
  "parse_digits acc [] = Some acc"
| "parse_digits acc (c # cs) =
     (if is_digit c then parse_digits (10 * acc + digit_val c) cs
      else if c = CHR ''_'' then
        (case cs of
           [] \<Rightarrow> None
         | d # ds \<Rightarrow> if is_digit d then parse_digits (10 * acc + digit_val d) ds else None)
      else None)"

definition parse_unsigned :: "string \<Rightarrow> int option" where
  "parse_unsigned s =
     (case s of
        [] \<Rightarrow> None
      | c # cs \<Rightarrow>
          if is_digit c then
            (if int_max_str_digits < length (filter is_digit s) then None
             else parse_digits (digit_val c) cs)
          else None)"

definition py_int_of_str :: "string \<Rightarrow> int option" where
  "py_int_of_str s =
     (case strip s of
        [] \<Rightarrow> None
      | c # cs \<Rightarrow>
          if c = CHR ''-'' then map_option uminus (parse_unsigned cs)
          else if c = CHR ''+'' then parse_unsigned cs
          else parse_unsigned (c # cs))"

fun py_int :: "pyval \<Rightarrow> exn + int" where
  "py_int (PyInt n) = Inr n"
| "py_int (PyBool b) = Inr (if b then 1 else 0)"
| "py_int (PyStr s) = (case py_int_of_str s of None \<Rightarrow> Inl ValueError | Some n \<Rightarrow> Inr n)"
| "py_int PyNone = Inl TypeError"

subsection \<open>True division of integers and \<^verbatim>\<open>.2f\<close> formatting\<close>

text \<open>
  A finite binary64 float is kept exactly, as \<open>mantissa * 2 ^ exponent\<close>.
  Python's \<^verbatim>\<open>a / b\<close> on integers is the float nearest to the exact quotient
  (ties to the even mantissa), \<^verbatim>\<open>ZeroDivisionError\<close> for a zero divisor and
  \<^verbatim>\<open>OverflowError\<close> when that float would not be finite.
\<close>

datatype pyfloat = PyFloat (mantissa: int) (exponent: int)

definition round_half_even :: "int \<Rightarrow> int \<Rightarrow> int" where
  "round_half_even n d =
     (let q = n div d; r = n mod d
      in if 2 * r < d then q else if d < 2 * r then q + 1 else if even q then q else q + 1)"

definition quot_exponent :: "int \<Rightarrow> int \<Rightarrow> int" where
  "quot_exponent n k =
     (let d = bitlen n - bitlen k
      in if k * 2 ^ nat d \<le> n * 2 ^ nat (- d) then d else d - 1)"

definition py_truediv :: "int \<Rightarrow> int \<Rightarrow> exn + pyfloat" where
  "py_truediv a b =
     (if b = 0 then Inl ZeroDivisionError
      else if a = 0 then Inr (PyFloat 0 0)
      else
        let n = \<bar>a\<bar>; k = \<bar>b\<bar>;
            e = max (quot_exponent n k - 52) (- 1074);
            m = round_half_even (n * 2 ^ nat (- e)) (k * 2 ^ nat e)
        in if 2 ^ 1024 \<le> m * 2 ^ nat e then Inl OverflowError
           else Inr (PyFloat (sgn a * sgn b * m) e))"

definition two_digits :: "nat \<Rightarrow> string" where
  "two_digits n = [digit_char (n div 10), digit_char (n mod 10)]"

definition show_hundredths :: "int \<Rightarrow> string" where
  "show_hundredths c = str_nat (nat (c div 100)) @ ''.'' @ two_digits (nat (c mod 100))"

definition py_format_2f :: "pyfloat \<Rightarrow> string" where
  "py_format_2f x =
     (let c = round_half_even (100 * \<bar>mantissa x\<bar> * 2 ^ nat (exponent x)) (2 ^ nat (- exponent x))
      in (if mantissa x < 0 then ''-'' else []) @ show_hundredths c)"

section \<open>The size formatter\<close>

text \<open>
  \<^verbatim>\<open>convert_bytes\<close>: the body of the \<^verbatim>\<open>try\<close> block, then the handler of
  \<^verbatim>\<open>except ValueError\<close>, which lets every other exception through.
\<close>

definition format_quotient :: "int \<Rightarrow> int \<Rightarrow> string \<Rightarrow> exn + string" where
  "format_quotient b d unit =
     (case py_truediv b d of Inl e \<Rightarrow> Inl e | Inr x \<Rightarrow> Inr (py_format_2f x @ unit))"

definition convert_bytes_body :: "pyval \<Rightarrow> exn + string" where
  "convert_bytes_body v =
     (case py_int v of
        Inl e \<Rightarrow> Inl e
      | Inr bytes_size \<Rightarrow>
          if bytes_size < 1024 then
            (case py_str_int bytes_size of Inl e \<Rightarrow> Inl e | Inr s \<Rightarrow> Inr (s @ '' bytes''))
          else if bytes_size < 1024 * 1024 then format_quotient bytes_size 1024 '' KB''
          else if bytes_size < 1024 * 1024 * 1024 then format_quotient bytes_size (1024 * 1024) '' MB''
          else format_quotient bytes_size (1024 * 1024 * 1024) '' GB'')"

definition convert_bytes :: "pyval \<Rightarrow> exn + string" where
  "convert_bytes bytes_size =
     (if bytes_size = PyStr ''N/A'' then Inr ''N/A''
      else case convert_bytes_body bytes_size of
             Inl ValueError \<Rightarrow> Inr ''Invalid size''
           | r \<Rightarrow> r)"

section \<open>The store client and the local file system\<close>

text \<open>
  The handler talks to the remote store through \<^verbatim>\<open>service\<close> and to the local
  disk through \<^verbatim>\<open>io.FileIO\<close> and \<^verbatim>\<open>MediaFileUpload\<close>. Both are outside
  the repository, so they are the environment: every call has a scripted outcome
  (an exception or a reply), and the state records the calls made and the files
  written.
\<close>

record drive_file =
  file_id :: string
  file_name :: string

record list_response =
  files :: "drive_file list option"
  nextPageToken :: "string option"

record storage_quota =
  limit :: "pyval option"
  usage :: "pyval option"

record chunk =
  data :: string
  progress :: rat
  done_flag :: bool

datatype call =
    ListCall "string option"
  | DeleteCall string
  | CreateCall string string
  | MediaCall string
  | AboutCall

record store =
  list_script :: "(exn + list_response) list"
  delete_outcome :: "call list \<Rightarrow> string \<Rightarrow> exn option"
  create_outcome :: "call list \<Rightarrow> string \<Rightarrow> exn + string option"
  media_script :: "string \<Rightarrow> (exn + chunk) list"
  about_outcome :: "exn + storage_quota option"
  open_error :: "string \<Rightarrow> exn option"
  fs :: "string \<rightharpoonup> string"
  calls :: "call list"
  progress_seen :: "rat list"

text \<open>
  \<open>list_script\<close>: the outcomes of the successive
  \<^verbatim>\<open>service.files().list(...).execute()\<close> calls; a loop that asks for a page
  when the script is used up has no result (\<open>None\<close>): the store went on issuing
  tokens beyond the scripted prefix.
  \<open>delete_outcome\<close>, \<open>create_outcome\<close>: the store's answer to a delete or create
  request, given the calls made so far. \<open>media_script\<close>: the outcomes of the
  successive \<^verbatim>\<open>downloader.next_chunk()\<close> calls for a file id.
  \<open>progress_seen\<close>: the values of \<^verbatim>\<open>status.progress()\<close> the handler has read
  (it logs each as an integer percentage).
\<close>

text \<open>\<^verbatim>\<open>try: ... except Exception as e: log; return v\<close>\<close>

definition except_Exception :: "exn + 'a \<Rightarrow> 'a \<Rightarrow> exn + 'a" where
  "except_Exception r v = (case r of Inl e \<Rightarrow> Inr v | Inr x \<Rightarrow> Inr x)"

text \<open>\<^verbatim>\<open>try: ... except HttpError as e: log; return v\<close>\<close>

definition except_HttpError :: "exn + 'a \<Rightarrow> 'a \<Rightarrow> exn + 'a" where
  "except_HttpError r v = (case r of Inl HttpError \<Rightarrow> Inr v | _ \<Rightarrow> r)"

text \<open>\<^verbatim>\<open>not page_token\<close>: \<^verbatim>\<open>None\<close> and the empty string are both falsy.\<close>

definition truthy :: "string option \<Rightarrow> bool" where
  "truthy t = (case t of None \<Rightarrow> False | Some s \<Rightarrow> s \<noteq> [])"

text \<open>\<^verbatim>\<open>results.get('files', [])\<close>\<close>

definition get_files :: "list_response \<Rightarrow> drive_file list" where
  "get_files results = (case files results of None \<Rightarrow> [] | Some page \<Rightarrow> page)"

section \<open>The transfer engine\<close>

definition delete_file_body :: "store \<Rightarrow> string \<Rightarrow> (exn + bool) \<times> store" where
  "delete_file_body st fid =
     (let st' = st\<lparr>calls := calls st @ [DeleteCall fid]\<rparr>
      in case delete_outcome st (calls st) fid of
           Some e \<Rightarrow> (Inl e, st')
         | None \<Rightarrow> (Inr True, st'))"

definition delete_file :: "store \<Rightarrow> string \<Rightarrow> (exn + bool) \<times> store" where
  "delete_file st fid =
     (case delete_file_body st fid of (r, st') \<Rightarrow> (except_Exception r False, st'))"

definition open_rb :: "store \<Rightarrow> string \<Rightarrow> exn + string" where
  "open_rb st path =
     (case open_error st path of
        Some e \<Rightarrow> Inl e
      | None \<Rightarrow> (case fs st path of None \<Rightarrow> Inl FileNotFoundError | Some content \<Rightarrow> Inr content))"

definition upload_pdf_body :: "store \<Rightarrow> string \<Rightarrow> string \<Rightarrow> (exn + pyval) \<times> store" where
  "upload_pdf_body st local_pdf_path drive_file_name =
     (case open_rb st local_pdf_path of
        Inl e \<Rightarrow> (Inl e, st)
      | Inr media \<Rightarrow>
          let st' = st\<lparr>calls := calls st @ [CreateCall drive_file_name media]\<rparr>
          in case create_outcome st (calls st) drive_file_name of
               Inl e \<Rightarrow> (Inl e, st')
             | Inr uploaded_file \<Rightarrow>
                 (Inr (case uploaded_file of None \<Rightarrow> PyNone | Some i \<Rightarrow> PyStr i), st'))"

definition upload_pdf :: "store \<Rightarrow> string \<Rightarrow> string \<Rightarrow> (exn + pyval) \<times> store" where
  "upload_pdf st local_pdf_path drive_file_name =
     (case upload_pdf_body st local_pdf_path drive_file_name of
        (r, st') \<Rightarrow> (except_Exception r PyNone, st'))"

text \<open>
  The \<^verbatim>\<open>while not done\<close> loop of \<^verbatim>\<open>download_pdf\<close>: each chunk is written to the
  open file by \<^verbatim>\<open>next_chunk\<close>, then its progress is read.
\<close>

fun download_loop ::
  "(exn + chunk) list \<Rightarrow> string \<Rightarrow> string \<Rightarrow> store \<Rightarrow> ((exn + unit) \<times> store) option" where
  "download_loop [] path content st = None"
| "download_loop (r # rs) path content st =
     (case r of
        Inl e \<Rightarrow> Some (Inl e, st)
      | Inr c \<Rightarrow>
          let content' = content @ data c;
              st' = st\<lparr>fs := (fs st)(path \<mapsto> content'),
                       progress_seen := progress_seen st @ [progress c]\<rparr>
          in if done_flag c then Some (Inr (), st') else download_loop rs path content' st')"

definition download_pdf_body :: "store \<Rightarrow> string \<Rightarrow> string \<Rightarrow> ((exn + pyval) \<times> store) option" where
  "download_pdf_body st fid local_destination_path =
     (let st0 = st\<lparr>calls := calls st @ [MediaCall fid]\<rparr>
      in case open_error st0 local_destination_path of
           Some e \<Rightarrow> Some (Inl e, st0)
         | None \<Rightarrow>
             let st1 = st0\<lparr>fs := (fs st0)(local_destination_path \<mapsto> [])\<rparr>
             in case download_loop (media_script st1 fid) local_destination_path [] st1 of
                  None \<Rightarrow> None
                | Some (Inl e, st2) \<Rightarrow> Some (Inl e, st2)
                | Some (Inr u, st2) \<Rightarrow> Some (Inr PyNone, st2))"

definition download_pdf :: "store \<Rightarrow> string \<Rightarrow> string \<Rightarrow> ((exn + pyval) \<times> store) option" where
  "download_pdf st fid local_destination_path =
     map_option (\<lambda>(r, st'). (except_Exception r PyNone, st'))
       (download_pdf_body st fid local_destination_path)"

section \<open>The deduplicator\<close>

text \<open>The first loop of \<^verbatim>\<open>remove_duplicate_files\<close>: it stops on a falsy token only.\<close>

fun fetch_all_pages ::
  "(exn + list_response) list \<Rightarrow> string option \<Rightarrow> drive_file list \<Rightarrow> call list \<Rightarrow>
   ((exn + drive_file list) \<times> (exn + list_response) list \<times> call list) option" where
  "fetch_all_pages [] page_token fls trace = None"
| "fetch_all_pages (r # rs) page_token fls trace =
     (let trace' = trace @ [ListCall page_token]
      in case r of
           Inl e \<Rightarrow> Some (Inl e, rs, trace')
         | Inr results \<Rightarrow>
             let fls' = fls @ get_files results;
                 page_token' = nextPageToken results
             in if \<not> truthy page_token' then Some (Inr fls', rs, trace')
                else fetch_all_pages rs page_token' fls' trace')"

text \<open>The \<^verbatim>\<open>for file in files\<close> loop: first-seen id per name, later ones collected.\<close>

fun scan_duplicates ::
  "drive_file list \<Rightarrow> (string \<rightharpoonup> string) \<Rightarrow> string list \<Rightarrow> (string \<rightharpoonup> string) \<times> string list" where
  "scan_duplicates [] file_names duplicate_files_ids = (file_names, duplicate_files_ids)"
| "scan_duplicates (f # fls) file_names duplicate_files_ids =
     (if file_names (file_name f) \<noteq> None
      then scan_duplicates fls file_names (duplicate_files_ids @ [file_id f])
      else scan_duplicates fls (file_names(file_name f \<mapsto> file_id f)) duplicate_files_ids)"

text \<open>The \<^verbatim>\<open>for file_id in duplicate_files_ids\<close> loop; the result of each delete is dropped.\<close>

fun delete_loop :: "store \<Rightarrow> string list \<Rightarrow> (exn + unit) \<times> store" where
  "delete_loop st [] = (Inr (), st)"
| "delete_loop st (i # ids) =
     (case delete_file st i of
        (Inl e, st') \<Rightarrow> (Inl e, st')
      | (Inr b, st') \<Rightarrow> delete_loop st' ids)"

definition remove_duplicate_files_body :: "store \<Rightarrow> ((exn + pyval) \<times> store) option" where
  "remove_duplicate_files_body st =
     (case fetch_all_pages (list_script st) None [] (calls st) of
        None \<Rightarrow> None
      | Some (r, rest, trace) \<Rightarrow>
          let st1 = st\<lparr>list_script := rest, calls := trace\<rparr>
          in case r of
               Inl e \<Rightarrow> Some (Inl e, st1)
             | Inr fls \<Rightarrow>
                 if fls = [] then Some (Inr PyNone, st1)
                 else
                   let duplicate_files_ids = snd (scan_duplicates fls Map.empty [])
                   in if duplicate_files_ids \<noteq> [] then
                        (case delete_loop st1 duplicate_files_ids of
                           (Inl e, st2) \<Rightarrow> Some (Inl e, st2)
                         | (Inr u, st2) \<Rightarrow> Some (Inr PyNone, st2))
                      else Some (Inr PyNone, st1))"

definition remove_duplicate_files :: "store \<Rightarrow> ((exn + pyval) \<times> store) option" where
  "remove_duplicate_files st =
     map_option (\<lambda>(r, st'). (except_Exception r PyNone, st')) (remove_duplicate_files_body st)"

section \<open>The catalog lister\<close>

text \<open>
  The loop of \<^verbatim>\<open>list_files\<close>: an empty page breaks out before the token is read.
\<close>

fun list_files_loop ::
  "(exn + list_response) list \<Rightarrow> string option \<Rightarrow> drive_file list \<Rightarrow> call list \<Rightarrow>
   ((exn + drive_file list) \<times> (exn + list_response) list \<times> call list) option" where
  "list_files_loop [] page_token file_list trace = None"
| "list_files_loop (r # rs) page_token file_list trace =
     (let trace' = trace @ [ListCall page_token]
      in case r of
           Inl e \<Rightarrow> Some (Inl e, rs, trace')
         | Inr results \<Rightarrow>
             let fls = get_files results
             in if fls = [] then Some (Inr file_list, rs, trace')
                else
                  let file_list' = file_list @
                        map (\<lambda>f. \<lparr>file_id = file_id f, file_name = file_name f\<rparr>) fls;
                      page_token' = nextPageToken results
                  in if \<not> truthy page_token' then Some (Inr file_list', rs, trace')
                     else list_files_loop rs page_token' file_list' trace')"

definition list_files :: "store \<Rightarrow> ((exn + drive_file list) \<times> store) option" where
  "list_files st =
     map_option (\<lambda>(r, rest, trace). (except_Exception r [], st\<lparr>list_script := rest, calls := trace\<rparr>))
       (list_files_loop (list_script st) None [] (calls st))"

section \<open>The quota reporter\<close>

text \<open>\<^verbatim>\<open>quota.get(key, 'N/A')\<close>\<close>

definition get_or_na :: "pyval option \<Rightarrow> pyval" where
  "get_or_na v = (case v of None \<Rightarrow> PyStr ''N/A'' | Some x \<Rightarrow> x)"

definition format_space :: "pyval \<Rightarrow> exn + pyval" where
  "format_space space =
     (if space \<noteq> PyStr ''N/A''
      then (case convert_bytes space of Inl e \<Rightarrow> Inl e | Inr s \<Rightarrow> Inr (PyStr s))
      else Inr space)"

definition get_drive_info_body :: "store \<Rightarrow> (exn + (string \<times> pyval) list) \<times> store" where
  "get_drive_info_body st =
     (let st' = st\<lparr>calls := calls st @ [AboutCall]\<rparr>
      in case about_outcome st of
           Inl e \<Rightarrow> (Inl e, st')
         | Inr drive_info \<Rightarrow>
             let quota = (case drive_info of None \<Rightarrow> \<lparr>limit = None, usage = None\<rparr> | Some q \<Rightarrow> q);
                 total_space = get_or_na (limit quota);
                 used_space = get_or_na (usage quota)
             in case format_space total_space of
                  Inl e \<Rightarrow> (Inl e, st')
                | Inr total_space' \<Rightarrow>
                    (case format_space used_space of
                       Inl e \<Rightarrow> (Inl e, st')
                     | Inr used_space' \<Rightarrow>
                         (Inr [(''total_space'', total_space'), (''used_space'', used_space')], st')))"

definition get_drive_info :: "store \<Rightarrow> (exn + (string \<times> pyval) list) \<times> store" where
  "get_drive_info st =
     (case get_drive_info_body st of (r, st') \<Rightarrow> (except_HttpError r [], st'))"

section \<open>Specification-level notions and example stores\<close>

text \<open>
  The ids of the records whose name occurred earlier in the catalog, in catalog
  order, and the id of the first record carrying a name.
\<close>

definition later_ids :: "drive_file list \<Rightarrow> string list" where
  "later_ids fls = map (\<lambda>i. file_id (fls ! i))
     (filter (\<lambda>i. file_name (fls ! i) \<in> file_name ` set (take i fls)) [0..<length fls])"

definition first_seen :: "drive_file list \<Rightarrow> string \<Rightarrow> string option" where
  "first_seen fls n = map_option file_id (find (\<lambda>f. file_name f = n) fls)"

text \<open>A page response that carries a continuation token the loops follow.\<close>

definition more_pages :: "list_response \<Rightarrow> bool" where
  "more_pages p = truthy (nextPageToken p)"

text \<open>
  The scripted listing ends: some response is a failure or carries no token.
\<close>

definition enumeration_ends :: "(exn + list_response) list \<Rightarrow> bool" where
  "enumeration_ends script =
     list_ex (\<lambda>r. case r of Inl e \<Rightarrow> True | Inr p \<Rightarrow> \<not> more_pages p) script"

text \<open>A store with nothing scripted, whose every request succeeds, and an empty disk.\<close>

definition idle_store :: store where
  "idle_store =
     \<lparr>list_script = [],
      delete_outcome = (\<lambda>tr i. None),
      create_outcome = (\<lambda>tr n. Inr (Some (''id-of-'' @ n))),
      media_script = (\<lambda>i. []),
      about_outcome = Inr None,
      open_error = (\<lambda>p. None),
      fs = Map.empty,
      calls = [],
      progress_seen = []\<rparr>"

definition example_catalog :: "drive_file list" where
  "example_catalog =
     [\<lparr>file_id = ''id1'', file_name = ''a''\<rparr>,
      \<lparr>file_id = ''id2'', file_name = ''a''\<rparr>,
      \<lparr>file_id = ''id3'', file_name = ''b''\<rparr>,
      \<lparr>file_id = ''id4'', file_name = ''a''\<rparr>]"

text \<open>One page holding the example catalog, with no continuation token.\<close>

definition example_store :: store where
  "example_store =
     idle_store\<lparr>list_script := [Inr \<lparr>files = Some example_catalog, nextPageToken = None\<rparr>]\<rparr>"

text \<open>The same store, rejecting the deletion of \<^verbatim>\<open>id2\<close>.\<close>

definition rejecting_store :: store where
  "rejecting_store =
     example_store\<lparr>delete_outcome := (\<lambda>tr i. if i = ''id2'' then Some HttpError else None)\<rparr>"

text \<open>
  An empty first page that carries the token \<^verbatim>\<open>t1\<close>, then a page with one record.
\<close>

definition empty_page_script :: "(exn + list_response) list" where
  "empty_page_script =
     [Inr \<lparr>files = Some [], nextPageToken = Some ''t1''\<rparr>,
      Inr \<lparr>files = Some [\<lparr>file_id = ''id1'', file_name = ''a''\<rparr>], nextPageToken = None\<rparr>]"

text \<open>
  A store whose listing, create, media and quota requests fail, with one local file.
\<close>

definition failing_store :: store where
  "failing_store =
     idle_store\<lparr>list_script := [Inl HttpError],
                create_outcome := (\<lambda>tr n. Inl HttpError),
                media_script := (\<lambda>i. [Inr \<lparr>data = ''ab'', progress = 1 / 2, done_flag = False\<rparr>,
                                      Inl HttpError]),
                about_outcome := Inl TimeoutError,
                fs := [''local.pdf'' \<mapsto> ''%PDF'']\<rparr>"

text \<open>
  The quotient \<open>b / d\<close> rounded to the nearest hundredth (ties to the even
  hundredth), printed with two decimals: what \<^verbatim>\<open>{b/d:.2f}\<close> denotes when the
  division is exact arithmetic.
\<close>

definition two_decimals :: "int \<Rightarrow> int \<Rightarrow> string" where
  "two_decimals b d = show_hundredths (round_half_even (100 * b) d)"



section \<open>Properties\<close>

subsection \<open>The duplicate scan\<close>

lemma scan_snoc:
  "scan_duplicates (fls @ [f]) m ds =
     (case scan_duplicates fls m ds of
        (m', ds') \<Rightarrow> if m' (file_name f) \<noteq> None then (m', ds' @ [file_id f])
                    else (m'(file_name f \<mapsto> file_id f), ds'))"
  by (induction fls arbitrary: m ds) auto

lemma scan_dom: "dom (fst (scan_duplicates fls m ds)) = dom m \<union> file_name ` set fls"
  by (induction fls arbitrary: m ds) auto

lemma scan_first_seen:
  "fst (scan_duplicates fls m ds) n =
     (case m n of Some i \<Rightarrow> Some i | None \<Rightarrow> first_seen fls n)"
  by (induction fls arbitrary: m ds) (auto simp: first_seen_def split: option.splits)

lemma later_ids_snoc:
  "later_ids (fls @ [f]) =
     later_ids fls @ (if file_name f \<in> file_name ` set fls then [file_id f] else [])"
proof -
  have a: "filter (\<lambda>i. file_name ((fls @ [f]) ! i) \<in> file_name ` set (take i (fls @ [f]))) [0..<length fls]
         = filter (\<lambda>i. file_name (fls ! i) \<in> file_name ` set (take i fls)) [0..<length fls]"
    by (rule filter_cong) (auto simp: nth_append)
  have b: "map (\<lambda>i. file_id ((fls @ [f]) ! i)) (filter (\<lambda>i. file_name (fls ! i) \<in> file_name ` set (take i fls)) [0..<length fls])
         = map (\<lambda>i. file_id (fls ! i)) (filter (\<lambda>i. file_name (fls ! i) \<in> file_name ` set (take i fls)) [0..<length fls])"
    by (rule map_cong) (auto simp: nth_append)
  have len: "[0..<length (fls @ [f])] = [0..<length fls] @ [length fls]"
    by simp
  have c: "map (\<lambda>i. file_id ((fls @ [f]) ! i))
             (filter (\<lambda>i. file_name ((fls @ [f]) ! i) \<in> file_name ` set (take i (fls @ [f]))) [length fls])
         = (if file_name f \<in> file_name ` set fls then [file_id f] else [])"
    by simp
  show ?thesis
    by (simp only: later_ids_def len filter_append map_append a b c)
qed

lemma scan_later_ids: "snd (scan_duplicates fls Map.empty []) = later_ids fls"
proof (induction fls rule: rev_induct)
  case Nil
  show ?case by (simp add: later_ids_def)
next
  case (snoc f fls)
  have d: "(fst (scan_duplicates fls Map.empty []) (file_name f) \<noteq> None) = (file_name f \<in> file_name ` set fls)"
    using scan_dom [of fls Map.empty "[]"] by (auto simp: dom_def)
  obtain m' ds' where s: "scan_duplicates fls Map.empty [] = (m', ds')"
    by (cases "scan_duplicates fls Map.empty []")
  show ?case
    using snoc d s by (simp add: scan_snoc later_ids_snoc)
qed

lemma unique_name_not_later:
  assumes "distinct (map file_id fls)" and "f \<in> set fls"
    and "\<forall>g\<in>set fls. file_name g = file_name f \<longrightarrow> g = f"
  shows "file_id f \<notin> set (later_ids fls)"
proof
  assume "file_id f \<in> set (later_ids fls)"
  then obtain i where i: "i < length fls" "file_id (fls ! i) = file_id f"
      "file_name (fls ! i) \<in> file_name ` set (take i fls)"
    by (auto simp: later_ids_def)
  from assms(2) obtain k where k: "k < length fls" "fls ! k = f"
    by (auto simp: in_set_conv_nth)
  have "map file_id fls ! i = map file_id fls ! k" using i k by simp
  then have "i = k" using nth_eq_iff_index_eq [OF assms(1), of i k] i(1) k(1) by simp
  from i(3) obtain j where j: "j < i" "file_name (fls ! j) = file_name (fls ! i)"
    by (auto simp: in_set_conv_nth)
  have "fls ! j \<in> set fls" using j(1) i(1) by simp
  then have "fls ! j = f" using assms(3) j(2) \<open>i = k\<close> k(2) by auto
  then have "map file_id fls ! j = map file_id fls ! i" using i j by simp
  then have "j = i" using nth_eq_iff_index_eq [OF assms(1), of j i] i(1) j(1) by simp
  with j(1) show False by simp
qed

subsection \<open>Deleting\<close>

lemma delete_file_result:
  "delete_file st fid =
     (Inr (delete_outcome st (calls st) fid = None), st\<lparr>calls := calls st @ [DeleteCall fid]\<rparr>)"
  by (simp add: delete_file_def delete_file_body_def except_Exception_def Let_def split: option.splits)

lemma delete_loop_result:
  "delete_loop st ids = (Inr (), st\<lparr>calls := calls st @ map DeleteCall ids\<rparr>)"
  by (induction ids arbitrary: st) (simp_all add: delete_file_result)

subsection \<open>Enumerating the pages\<close>

lemma fetch_all_pages_complete:
  assumes "\<forall>p\<in>set pages. more_pages p" and "\<not> more_pages final"
  shows "fetch_all_pages (map Inr pages @ Inr final # rest) tok acc tr =
     Some (Inr (acc @ concat (map get_files (pages @ [final]))), rest,
           tr @ map ListCall (tok # map nextPageToken pages))"
  using assms
  by (induction pages arbitrary: tok acc tr) (auto simp: more_pages_def Let_def)

lemma fetch_all_pages_error:
  assumes "\<forall>p\<in>set pages. more_pages p"
  shows "fetch_all_pages (map Inr pages @ Inl e # rest) tok acc tr =
     Some (Inl e, rest, tr @ map ListCall (tok # map nextPageToken pages))"
  using assms
  by (induction pages arbitrary: tok acc tr) (auto simp: more_pages_def Let_def)

lemma fetch_all_pages_ends:
  "enumeration_ends script \<Longrightarrow> fetch_all_pages script tok acc tr \<noteq> None"
  by (induction script arbitrary: tok acc tr)
     (auto simp: enumeration_ends_def more_pages_def Let_def split: sum.splits)

subsection \<open>The deduplication pass\<close>

lemma rdf_after_listing:
  assumes "fetch_all_pages (list_script st) None [] (calls st) = Some (Inr fls, rest, tr)"
  shows "remove_duplicate_files st =
     Some (Inr PyNone, st\<lparr>list_script := rest, calls := tr @ map DeleteCall (later_ids fls)\<rparr>)"
proof (cases "fls = []")
  case True
  then show ?thesis using assms
    by (simp add: remove_duplicate_files_def remove_duplicate_files_body_def except_Exception_def later_ids_def)
next
  case False
  then show ?thesis using assms
    by (simp add: remove_duplicate_files_def remove_duplicate_files_body_def except_Exception_def
        Let_def scan_later_ids delete_loop_result)
qed

lemma rdf_listing_error:
  assumes "fetch_all_pages (list_script st) None [] (calls st) = Some (Inl e, rest, tr)"
  shows "remove_duplicate_files st = Some (Inr PyNone, st\<lparr>list_script := rest, calls := tr\<rparr>)"
  using assms
  by (simp add: remove_duplicate_files_def remove_duplicate_files_body_def except_Exception_def)

lemma rdf_body_value:
  "remove_duplicate_files_body st = Some (Inr v, st') \<Longrightarrow> v = PyNone"
  by (auto simp: remove_duplicate_files_body_def Let_def
      split: option.splits sum.splits prod.splits if_splits)

lemma rdf_never_raises:
  "remove_duplicate_files st = Some (r, st') \<Longrightarrow> r = Inr PyNone"
proof -
  assume a: "remove_duplicate_files st = Some (r, st')"
  then obtain r0 where b: "remove_duplicate_files_body st = Some (r0, st')"
      and r: "r = except_Exception r0 PyNone"
    by (auto simp: remove_duplicate_files_def)
  show ?thesis
  proof (cases r0)
    case (Inl e)
    then show ?thesis using r by (simp add: except_Exception_def)
  next
    case (Inr v)
    then show ?thesis using r b rdf_body_value [of st v st'] by (simp add: except_Exception_def)
  qed
qed

lemma rdf_returns:
  "enumeration_ends (list_script st) \<Longrightarrow> remove_duplicate_files st \<noteq> None"
  using fetch_all_pages_ends [of "list_script st" None "[]" "calls st"]
  by (auto simp: remove_duplicate_files_def remove_duplicate_files_body_def Let_def
      split: option.splits sum.splits prod.splits)

lemma example_listing:
  "fetch_all_pages (list_script example_store) None [] (calls example_store) =
     Some (Inr example_catalog, [], [ListCall None])"
  by (simp add: example_store_def idle_store_def truthy_def get_files_def)

lemma rejecting_listing:
  "fetch_all_pages (list_script rejecting_store) None [] (calls rejecting_store) =
     Some (Inr example_catalog, [], [ListCall None])"
  by (simp add: rejecting_store_def example_store_def idle_store_def truthy_def get_files_def)

lemma later_ids_example: "later_ids example_catalog = [''id2'', ''id4'']"
  by (simp add: later_ids_def example_catalog_def upt_rec [of 0] upt_rec [of 1] upt_rec [of 2]
      upt_rec [of 3] upt_rec [of 4] numeral_eq_Suc)

subsection \<open>Transfers and listing\<close>

lemma rebuild_files [simp]:
  "map (\<lambda>f. \<lparr>file_id = file_id f, file_name = file_name f\<rparr>) fls = fls"
  by (induction fls) simp_all

lemma except_Exception_returns: "\<exists>x. except_Exception r v = Inr x"
  by (cases r) (simp_all add: except_Exception_def)

lemma list_files_loop_error:
  assumes "\<forall>p\<in>set pages. get_files p \<noteq> [] \<and> more_pages p"
  shows "list_files_loop (map Inr pages @ Inl e # rest) tok acc tr =
     Some (Inl e, rest, tr @ map ListCall (tok # map nextPageToken pages))"
  using assms
  by (induction pages arbitrary: tok acc tr) (auto simp: more_pages_def Let_def)

lemma list_files_loop_complete:
  assumes "\<forall>p\<in>set pages. get_files p \<noteq> [] \<and> more_pages p"
    and "get_files final \<noteq> []" and "\<not> more_pages final"
  shows "list_files_loop (map Inr pages @ Inr final # rest) tok acc tr =
     Some (Inr (acc @ concat (map get_files (pages @ [final]))), rest,
           tr @ map ListCall (tok # map nextPageToken pages))"
  using assms
  by (induction pages arbitrary: tok acc tr) (auto simp: more_pages_def Let_def)

lemma download_loop_error:
  assumes "\<forall>c\<in>set cs. \<not> done_flag c" and "fs st path = Some content"
  shows "download_loop (map Inr cs @ Inl e # rest) path content st =
     Some (Inl e, st\<lparr>fs := (fs st)(path \<mapsto> content @ concat (map data cs)),
                     progress_seen := progress_seen st @ map progress cs\<rparr>)"
  using assms
proof (induction cs arbitrary: content st)
  case Nil
  then have "(fs st)(path \<mapsto> content) = fs st" by (simp add: fun_upd_idem)
  then show ?case by simp
next
  case (Cons c cs)
  let ?st' = "st\<lparr>fs := (fs st)(path \<mapsto> content @ data c),
                  progress_seen := progress_seen st @ [progress c]\<rparr>"
  have nd: "\<not> done_flag c" and rest: "\<forall>c\<in>set cs. \<not> done_flag c"
    using Cons.prems(1) by simp_all
  have "fs ?st' path = Some (content @ data c)" by simp
  from Cons.IH [OF rest this]
  have "download_loop (map Inr cs @ Inl e # rest) path (content @ data c) ?st' =
     Some (Inl e, ?st'\<lparr>fs := (fs ?st')(path \<mapsto> (content @ data c) @ concat (map data cs)),
                     progress_seen := progress_seen ?st' @ map progress cs\<rparr>)" .
  moreover have "?st'\<lparr>fs := (fs ?st')(path \<mapsto> (content @ data c) @ concat (map data cs)),
                     progress_seen := progress_seen ?st' @ map progress cs\<rparr>
      = st\<lparr>fs := (fs st)(path \<mapsto> content @ concat (map data (c # cs))),
                     progress_seen := progress_seen st @ map progress (c # cs)\<rparr>"
    by simp
  ultimately show ?case using nd by (simp add: Let_def del: fun_upd_apply)
qed


lemma upload_pdf_unreadable:
  "open_rb st p = Inl e \<Longrightarrow> upload_pdf st p n = (Inr PyNone, st)"
  by (simp add: upload_pdf_def upload_pdf_body_def except_Exception_def)

lemma upload_pdf_rejected:
  "open_rb st p = Inr m \<Longrightarrow> create_outcome st (calls st) n = Inl e \<Longrightarrow>
   upload_pdf st p n = (Inr PyNone, st\<lparr>calls := calls st @ [CreateCall n m]\<rparr>)"
  by (simp add: upload_pdf_def upload_pdf_body_def except_Exception_def Let_def)

lemma download_pdf_unwritable:
  "open_error st path = Some e \<Longrightarrow>
   download_pdf st fid path = Some (Inr PyNone, st\<lparr>calls := calls st @ [MediaCall fid]\<rparr>)"
  by (simp add: download_pdf_def download_pdf_body_def except_Exception_def Let_def)

lemma download_pdf_midstream:
  assumes "open_error st path = None" and "media_script st fid = map Inr cs @ Inl e # rest"
    and "\<forall>c\<in>set cs. \<not> done_flag c"
  shows "download_pdf st fid path =
     Some (Inr PyNone, st\<lparr>calls := calls st @ [MediaCall fid],
                          fs := (fs st)(path \<mapsto> concat (map data cs)),
                          progress_seen := progress_seen st @ map progress cs\<rparr>)"
proof -
  let ?st1 = "st\<lparr>calls := calls st @ [MediaCall fid], fs := (fs st)(path \<mapsto> [])\<rparr>"
  have "download_loop (map Inr cs @ Inl e # rest) path [] ?st1 =
     Some (Inl e, ?st1\<lparr>fs := (fs ?st1)(path \<mapsto> [] @ concat (map data cs)),
                     progress_seen := progress_seen ?st1 @ map progress cs\<rparr>)"
    by (rule download_loop_error [OF assms(3)]) simp
  then show ?thesis using assms(1,2)
    by (simp add: download_pdf_def download_pdf_body_def except_Exception_def Let_def)
qed


lemma list_files_page_failure:
  assumes "\<forall>p\<in>set pages. get_files p \<noteq> [] \<and> more_pages p"
    and "list_script st = map Inr pages @ Inl e # rest"
  shows "list_files st =
     Some (Inr [], st\<lparr>list_script := rest,
                      calls := calls st @ map ListCall (None # map nextPageToken pages)\<rparr>)"
  using list_files_loop_error [OF assms(1), of e rest None "[]" "calls st"] assms(2)
  by (simp add: list_files_def except_Exception_def)

lemma upload_pdf_returns: "\<exists>v. fst (upload_pdf st p n) = Inr v"
  by (cases "upload_pdf_body st p n")
     (auto simp: upload_pdf_def except_Exception_def split: sum.splits)

lemma download_pdf_returns: "download_pdf st fid path = Some (r, st') \<Longrightarrow> \<exists>v. r = Inr v"
  using except_Exception_returns by (auto simp: download_pdf_def)

lemma list_files_returns: "list_files st = Some (r, st') \<Longrightarrow> \<exists>v. r = Inr v"
  using except_Exception_returns by (auto simp: list_files_def)




subsection \<open>The quota reporter\<close>

lemma format_space_eq:
  "format_space v = (case convert_bytes v of Inl e \<Rightarrow> Inl e | Inr s \<Rightarrow> Inr (PyStr s))"
  by (simp add: format_space_def convert_bytes_def)

lemma gdi_http_error:
  "about_outcome st = Inl HttpError \<Longrightarrow> fst (get_drive_info st) = Inr []"
  by (simp add: get_drive_info_def get_drive_info_body_def except_HttpError_def Let_def)

lemma gdi_other_error:
  "about_outcome st = Inl e \<Longrightarrow> e \<noteq> HttpError \<Longrightarrow> fst (get_drive_info st) = Inl e"
  by (cases e) (simp_all add: get_drive_info_def get_drive_info_body_def except_HttpError_def Let_def)

lemma gdi_formats:
  assumes "about_outcome st = Inr drive_info"
    and "quota = (case drive_info of None \<Rightarrow> \<lparr>limit = None, usage = None\<rparr> | Some q \<Rightarrow> q)"
    and "convert_bytes (get_or_na (limit quota)) = Inr s"
    and "convert_bytes (get_or_na (usage quota)) = Inr t"
  shows "fst (get_drive_info st) = Inr [(''total_space'', PyStr s), (''used_space'', PyStr t)]"
  using assms
  by (simp add: get_drive_info_def get_drive_info_body_def except_HttpError_def Let_def
      format_space_eq)

lemma convert_bytes_na: "convert_bytes (PyStr ''N/A'') = Inr ''N/A''"
  by (simp add: convert_bytes_def)


lemma convert_bytes_2048: "convert_bytes (PyStr ''2048'') = Inr ''2.00 KB''"
  by code_simp

subsection \<open>Rounding, true division and the size formatter\<close>

lemma rhe_exact: "0 < d \<Longrightarrow> round_half_even (x * d) d = x"
  by (simp add: round_half_even_def)

lemma rhe_scale:
  assumes "0 < c" and "0 < d"
  shows "round_half_even (c * n) (c * d) = round_half_even n d"
proof -
  have "(c * n) div (c * d) = n div d" using assms by simp
  moreover have "(c * n) mod (c * d) = c * (n mod d)" using assms by simp
  moreover have "(2 * (c * (n mod d)) < c * d) = (2 * (n mod d) < d)"
    using assms(1) by (simp add: mult.left_commute [of 2 c])
  moreover have "(c * d < 2 * (c * (n mod d))) = (d < 2 * (n mod d))"
    using assms(1) by (simp add: mult.left_commute [of 2 c])
  ultimately show ?thesis
    by (simp add: round_half_even_def Let_def)
qed

lemma rhe_range: "round_half_even n d = n div d \<or> round_half_even n d = n div d + 1"
  by (simp add: round_half_even_def Let_def)

lemma rhe_down: "2 * (n mod d) < d \<Longrightarrow> round_half_even n d = n div d"
  by (simp add: round_half_even_def Let_def)

lemma rhe_up:
  "d \<le> 2 * (n mod d) \<Longrightarrow> odd (n div d) \<or> d < 2 * (n mod d) \<Longrightarrow>
   round_half_even n d = n div d + 1"
  by (auto simp: round_half_even_def Let_def)

lemma rhe_le:
  assumes "0 < d" and "2 * n < (2 * c + 1) * d"
  shows "round_half_even n d \<le> c"
proof -
  define q where "q = n div d"
  define r where "r = n mod d"
  have n: "n = q * d + r" and r: "0 \<le> r" "r < d"
    using assms(1) by (simp_all add: q_def r_def)
  have "q \<le> c"
  proof (rule ccontr)
    assume "\<not> q \<le> c"
    then have "c + 1 \<le> q" by simp
    then have "(c + 1) * d \<le> q * d" using assms(1) by (simp add: mult_right_mono)
    then have a: "c * d + d \<le> q * d" by (simp add: algebra_simps)
    have b: "2 * n < 2 * (c * d) + d" using assms(2) by (simp add: algebra_simps)
    show False using a b n r assms(1) by linarith
  qed
  moreover have "2 * r < d" if "q = c"
    using that assms(2) n by (simp add: algebra_simps)
  ultimately show ?thesis
    using rhe_range [of n d] rhe_down [of n d] unfolding q_def r_def
    by (cases "n div d = c") auto
qed

lemma rhe_ge:
  assumes "0 < d" and "c * d \<le> n"
  shows "c \<le> round_half_even n d"
proof -
  have "(c * d) div d \<le> n div d"
    using assms by (intro zdiv_mono1) simp_all
  then have "c \<le> n div d"
    using assms(1) by simp
  then show ?thesis
    by (auto simp: round_half_even_def Let_def)
qed

lemma rhe_ge_tie:
  assumes "0 < d" and "(2 * c - 1) * d \<le> 2 * n" and "even c"
  shows "c \<le> round_half_even n d"
proof -
  define q where "q = n div d"
  define r where "r = n mod d"
  have n: "n = q * d + r" and r: "0 \<le> r" "r < d"
    using assms(1) by (simp_all add: q_def r_def)
  have "c - 1 \<le> q"
  proof (rule ccontr)
    assume "\<not> c - 1 \<le> q"
    then have "q + 1 \<le> c - 1" by simp
    then have "(q + 1) * d \<le> (c - 1) * d" using assms(1) by (simp add: mult_right_mono)
    then have a: "q * d + d \<le> c * d - d" by (simp add: algebra_simps)
    have b: "2 * (c * d) - d \<le> 2 * n" using assms(2) by (simp add: algebra_simps)
    show False using a b n r assms(1) by linarith
  qed
  moreover have "d \<le> 2 * r" if "q = c - 1"
  proof -
    have "n = (c - 1) * d + r" using n that by simp
    then have a: "n = c * d - d + r" by (simp add: algebra_simps)
    have b: "2 * (c * d) - d \<le> 2 * n" using assms(2) by (simp add: algebra_simps)
    show ?thesis using a b by linarith
  qed
  moreover have "odd q" if "q = c - 1"
    using that assms(3) by simp
  ultimately show ?thesis
    using rhe_range [of n d] rhe_up [of d n] unfolding q_def r_def
    by (cases "n div d = c - 1") auto
qed


lemma pos_of_pow_le: "2 ^ k \<le> (b::int) \<Longrightarrow> 0 < b"
proof -
  assume "2 ^ k \<le> b"
  moreover have "(0::int) < 2 ^ k" by simp
  ultimately show "0 < b" by linarith
qed

lemma bitlen_one_pow: "bitlen (2 ^ k) = int k + 1"
  using bitlen_pow2 [of 1 k] by (simp add: bitlen_alt_def)

lemma bitlen_ge_pow: "2 ^ k \<le> b \<Longrightarrow> int k + 1 \<le> bitlen b"
proof -
  have "nat (int k + 1) - 1 = k" by simp
  then show "2 ^ k \<le> b \<Longrightarrow> int k + 1 \<le> bitlen b"
    unfolding bitlen_ge_iff_power [of "int k + 1" b] by simp
qed

lemma quot_exponent_pow2:
  assumes "2 ^ k \<le> b"
  shows "quot_exponent b (2 ^ k) = bitlen b - int k - 1"
proof -
  have b0: "0 < b"
    using assms by (rule pos_of_pow_le)
  have ge: "int k + 1 \<le> bitlen b"
    using assms by (rule bitlen_ge_pow)
  define d where "d = bitlen b - (int k + 1)"
  have d0: "0 \<le> d" using ge by (simp add: d_def)
  have "(2::int) ^ k * 2 ^ nat d = 2 ^ (k + nat d)"
    by (simp add: power_add)
  also have "k + nat d = nat (bitlen b - 1)"
    using ge by (simp add: d_def nat_diff_distrib nat_add_distrib)
  also have "(2::int) ^ nat (bitlen b - 1) \<le> b"
    using bitlen_bounds [OF b0] by simp
  finally have "(2::int) ^ k * 2 ^ nat d \<le> b * 2 ^ nat (- d)"
    using d0 by simp
  then show ?thesis
    unfolding quot_exponent_def bitlen_one_pow Let_def d_def [symmetric]
    by (simp add: d_def)
qed

lemma truediv_pow2:
  assumes "2 ^ k \<le> b"
  shows "py_truediv b (2 ^ k) =
     (let e = bitlen b - int k - 53;
          m = round_half_even (b * 2 ^ nat (- e)) (2 ^ k * 2 ^ nat e)
      in if 2 ^ 1024 \<le> m * 2 ^ nat e then Inl OverflowError else Inr (PyFloat m e))"
proof -
  have b0: "0 < b"
    using assms by (rule pos_of_pow_le)
  have ge: "int k + 1 \<le> bitlen b"
    using assms by (rule bitlen_ge_pow)
  have e: "max (quot_exponent b (2 ^ k) - 52) (- 1074) = bitlen b - int k - 53"
    using ge by (simp add: quot_exponent_pow2 [OF assms])
  have abs: "\<bar>b\<bar> = b" "\<bar>(2::int) ^ k\<bar> = 2 ^ k" "sgn b = 1" "sgn ((2::int) ^ k) = 1"
    using b0 by simp_all
  show ?thesis
    unfolding py_truediv_def abs e Let_def using b0
    by simp
qed


lemma truediv_exact:
  assumes "2 ^ k \<le> b" and "b < 2 ^ 53"
  shows "py_truediv b (2 ^ k) =
     Inr (PyFloat (b * 2 ^ nat (53 - bitlen b)) (- int (k + nat (53 - bitlen b))))"
proof -
  have b0: "0 < b" using assms(1) by (rule pos_of_pow_le)
  have ge: "int k + 1 \<le> bitlen b" using assms(1) by (rule bitlen_ge_pow)
  have le: "bitlen b \<le> 53" using assms(2) by (simp add: bitlen_le_iff_power)
  define i where "i = nat (53 - bitlen b)"
  have e: "bitlen b - int k - 53 = - int (k + i)"
    using le by (simp add: i_def)
  have m: "round_half_even (b * 2 ^ (k + i)) (2 ^ k) = b * 2 ^ i"
    using rhe_exact [of "2 ^ k" "b * 2 ^ i"] by (simp add: power_add mult.assoc mult.commute [of "2 ^ k"])
  have "b < 2 ^ nat (bitlen b)" using bitlen_bounds [OF b0] by simp
  then have "b * 2 ^ i < 2 ^ nat (bitlen b) * 2 ^ i" by simp
  also have "\<dots> = 2 ^ (nat (bitlen b) + i)" by (simp add: power_add)
  also have "nat (bitlen b) + i = 53" using le ge by (simp add: i_def)
  finally have "b * 2 ^ i < 2 ^ 53" .
  moreover have "(2::int) ^ 53 < 2 ^ 1024" by simp
  ultimately have small: "\<not> 2 ^ 1024 \<le> b * 2 ^ i" by linarith
  have n1: "nat (- (bitlen b - int k - 53)) = k + i"
    and n2: "nat (bitlen b - int k - 53) = 0"
    using le ge by (simp_all add: i_def)
  have "py_truediv b (2 ^ k) = Inr (PyFloat (b * 2 ^ i) (bitlen b - int k - 53))"
    unfolding truediv_pow2 [OF assms(1)] Let_def n1 n2
    using m small by simp
  then show ?thesis
    unfolding e i_def [symmetric] .
qed

lemma format_2f_neg_exp:
  "0 \<le> m \<Longrightarrow>
   py_format_2f (PyFloat m (- int j)) = show_hundredths (round_half_even (100 * m) (2 ^ j))"
  by (simp add: py_format_2f_def Let_def)

lemma format_2f_pos_exp:
  "0 \<le> m \<Longrightarrow>
   py_format_2f (PyFloat m (int t)) = show_hundredths (100 * m * 2 ^ t)"
  using rhe_exact [of 1 "100 * m * 2 ^ t"]
  by (simp add: py_format_2f_def Let_def)

lemma format_quotient_exact:
  assumes "2 ^ k \<le> b" and "b < 2 ^ 53"
  shows "format_quotient b (2 ^ k) u = Inr (two_decimals b (2 ^ k) @ u)"
proof -
  have b0: "0 < b" using assms(1) by (rule pos_of_pow_le)
  define i where "i = nat (53 - bitlen b)"
  have x: "100 * (b * 2 ^ i) = 2 ^ i * (100 * b)"
    by simp
  have y: "(2::int) ^ (k + i) = 2 ^ i * 2 ^ k"
    by (simp add: power_add)
  have "round_half_even (100 * (b * 2 ^ i)) (2 ^ (k + i)) =
        round_half_even (2 ^ i * (100 * b)) (2 ^ i * 2 ^ k)"
    by (simp only: x y)
  also have "\<dots> = round_half_even (100 * b) (2 ^ k)"
    by (rule rhe_scale) simp_all
  finally have c: "round_half_even (100 * (b * 2 ^ i)) (2 ^ (k + i)) =
        round_half_even (100 * b) (2 ^ k)" .
  have nn: "0 \<le> b * 2 ^ i"
    using b0 by simp
  have "format_quotient b (2 ^ k) u = Inr (py_format_2f (PyFloat (b * 2 ^ i) (- int (k + i))) @ u)"
    unfolding format_quotient_def truediv_exact [OF assms] i_def [symmetric] by simp
  then show ?thesis
    unfolding format_2f_neg_exp [OF nn] c two_decimals_def .
qed


lemma truediv_cases:
  assumes "2 ^ k \<le> b"
  obtains m e where "py_truediv b (2 ^ k) =
      (if 2 ^ 1024 \<le> m * 2 ^ nat e then Inl OverflowError else Inr (PyFloat m e))"
    and "e = bitlen b - int k - 53"
    and "m = round_half_even (b * 2 ^ nat (- e)) (2 ^ k * 2 ^ nat e)"
    and "0 \<le> m" and "m \<le> 2 ^ 53"
proof -
  have b0: "0 < b" using assms by (rule pos_of_pow_le)
  have ge: "int k + 1 \<le> bitlen b" using assms by (rule bitlen_ge_pow)
  define e where "e = bitlen b - int k - 53"
  define n where "n = b * 2 ^ nat (- e)"
  define d where "d = (2::int) ^ k * 2 ^ nat e"
  define m where "m = round_half_even n d"
  have td: "py_truediv b (2 ^ k) =
      (if 2 ^ 1024 \<le> m * 2 ^ nat e then Inl OverflowError else Inr (PyFloat m e))"
    using truediv_pow2 [OF assms] by (simp add: Let_def e_def m_def n_def d_def)
  have d0: "0 < d" by (simp add: d_def)
  have n0: "0 \<le> n" using b0 by (simp add: n_def)
  have m0: "0 \<le> m"
    unfolding m_def using d0 n0 by (intro rhe_ge) simp_all
  have ex: "nat (bitlen b) + nat (- e) = k + nat e + 53"
    using ge by (simp add: e_def)
  have "b < 2 ^ nat (bitlen b)" using bitlen_bounds [OF b0] by simp
  then have "n < 2 ^ nat (bitlen b) * 2 ^ nat (- e)" by (simp add: n_def)
  also have "\<dots> = 2 ^ (k + nat e + 53)" by (simp add: ex flip: power_add)
  also have "\<dots> = 2 ^ 53 * d" by (simp add: d_def power_add)
  finally have nd: "n < 2 ^ 53 * d" .
  have "2 * n < (2 * 2 ^ 53 + 1) * d"
  proof -
    have "(2 * 2 ^ 53 + 1) * d = 2 * (2 ^ 53 * d) + d" by (simp add: algebra_simps)
    then show ?thesis using nd d0 by linarith
  qed
  then have m53: "m \<le> 2 ^ 53"
    unfolding m_def using d0 by (intro rhe_le) simp_all
  show ?thesis
    using that [of m e] td m0 m53 by (simp add: e_def m_def n_def d_def)
qed


lemma truediv_finite:
  assumes "2 ^ k \<le> b" and "b < 2 ^ (k + 1024) - 2 ^ (k + 970)"
  shows "\<exists>m e. py_truediv b (2 ^ k) = Inr (PyFloat m e) \<and> 0 \<le> m"
proof -
  obtain m e where td: "py_truediv b (2 ^ k) =
      (if 2 ^ 1024 \<le> m * 2 ^ nat e then Inl OverflowError else Inr (PyFloat m e))"
    and e: "e = bitlen b - int k - 53"
    and m: "m = round_half_even (b * 2 ^ nat (- e)) (2 ^ k * 2 ^ nat e)"
    and m0: "0 \<le> m" and m53: "m \<le> 2 ^ 53"
    using truediv_cases [OF assms(1)] by blast
  define K where "K = (2::int) ^ k"
  have K0: "0 < K" by (simp add: K_def)
  have bK: "b < K * 2 ^ 1024 - K * 2 ^ 970"
    using assms(2) by (simp only: K_def power_add)
  have "(0::int) < 2 ^ (k + 970)" by simp
  then have "b < 2 ^ (k + 1024)"
    using assms(2) by linarith
  then have "bitlen b \<le> int k + 1024"
    using bitlen_le_iff_power [of b "int k + 1024"] by (simp add: nat_add_distrib)
  then have e971: "e \<le> 971" by (simp add: e)
  have small: "m * 2 ^ nat e < 2 ^ 1024"
  proof (cases "e \<le> 970")
    case True
    then have "nat e \<le> 970" by simp
    then have "(2::int) ^ nat e \<le> 2 ^ 970" by (rule power_increasing) simp
    then have "m * 2 ^ nat e \<le> 2 ^ 53 * 2 ^ 970"
      using m53 m0 by (intro mult_mono) simp_all
    also have "(2::int) ^ 53 * 2 ^ 970 < 2 ^ 1024" by simp
    finally show ?thesis .
  next
    case False
    then have e': "e = 971" using e971 by simp
    have ne: "nat e = 971" "nat (- e) = 0" by (simp_all add: e')
    have m': "m = round_half_even b (K * 2 ^ 971)"
      unfolding m ne K_def by simp
    have eq: "(2 * (2 ^ 53 - 1) + 1) * (K * 2 ^ 971) = 2 * (K * 2 ^ 1024 - K * 2 ^ 970)"
      by (simp add: algebra_simps)
    have "2 * b < 2 * (K * 2 ^ 1024 - K * 2 ^ 970)"
      using bK by (simp only: mult_less_cancel_left_pos zero_less_numeral)
    then have "2 * b < (2 * (2 ^ 53 - 1) + 1) * (K * 2 ^ 971)"
      by (simp only: eq)
    then have "m \<le> 2 ^ 53 - 1"
      unfolding m' using K0 by (intro rhe_le) simp_all
    then have "m * 2 ^ 971 \<le> (2 ^ 53 - 1) * 2 ^ 971"
      by (intro mult_right_mono) simp_all
    also have "((2::int) ^ 53 - 1) * 2 ^ 971 < 2 ^ 1024" by simp
    finally show ?thesis by (simp only: ne)
  qed
  then have "py_truediv b (2 ^ k) = Inr (PyFloat m e)"
    using td by (simp only: if_False not_le [symmetric])
  then show ?thesis using m0 by blast
qed

lemma truediv_overflow:
  assumes "2 ^ (k + 1024) - 2 ^ (k + 970) \<le> b"
  shows "py_truediv b (2 ^ k) = Inl OverflowError"
proof -
  define K where "K = (2::int) ^ k"
  have K0: "0 < K" by (simp add: K_def)
  have bK: "K * 2 ^ 1024 - K * 2 ^ 970 \<le> b"
    using assms by (simp only: K_def power_add)
  have "K * 2 ^ 1023 \<le> K * 2 ^ 1024 - K * 2 ^ 970"
    using K0 by simp
  then have b1023: "2 ^ (k + 1023) \<le> b"
    using bK by (simp only: K_def power_add) 
  have "(2::int) ^ k \<le> 2 ^ (k + 1023)"
    by (rule power_increasing) simp_all
  then have kb: "2 ^ k \<le> b" using b1023 by linarith
  have b0: "0 < b" using kb by (rule pos_of_pow_le)
  obtain m e where td: "py_truediv b (2 ^ k) =
      (if 2 ^ 1024 \<le> m * 2 ^ nat e then Inl OverflowError else Inr (PyFloat m e))"
    and e: "e = bitlen b - int k - 53"
    and m: "m = round_half_even (b * 2 ^ nat (- e)) (2 ^ k * 2 ^ nat e)"
    and m0: "0 \<le> m" and m53: "m \<le> 2 ^ 53"
    using truediv_cases [OF kb] by blast
  have "int (k + 1023) + 1 \<le> bitlen b"
    using b1023 by (rule bitlen_ge_pow)
  then have e971: "971 \<le> e" by (simp add: e)
  then have ne: "nat (- e) = 0" by simp
  have m': "m = round_half_even b (K * 2 ^ nat e)"
    unfolding m ne K_def by simp
  have d0: "0 < K * 2 ^ nat e" using K0 by simp
  have big: "2 ^ 1024 \<le> m * 2 ^ nat e"
  proof (cases "e = 971")
    case True
    then have n971: "nat e = 971" by simp
    have eq: "(2 * 2 ^ 53 - 1) * (K * 2 ^ 971) = 2 * (K * 2 ^ 1024 - K * 2 ^ 970)"
      by (simp add: algebra_simps)
    have "2 * (K * 2 ^ 1024 - K * 2 ^ 970) \<le> 2 * b"
      using bK by (simp only: mult_le_cancel_left_pos zero_less_numeral)
    then have "(2 * 2 ^ 53 - 1) * (K * 2 ^ 971) \<le> 2 * b"
      by (simp only: eq)
    then have "2 ^ 53 \<le> m"
      unfolding m' n971 using K0 by (intro rhe_ge_tie) simp_all
    then have "2 ^ 53 * 2 ^ 971 \<le> m * 2 ^ 971"
      by (intro mult_right_mono) simp_all
    moreover have "(2::int) ^ 1024 = 2 ^ 53 * 2 ^ 971" by simp
    ultimately show ?thesis by (simp only: n971)
  next
    case False
    then have e972: "972 \<le> e" using e971 by simp
    have "2 ^ nat (bitlen b - 1) \<le> b" using bitlen_bounds [OF b0] by simp
    moreover have "nat (bitlen b - 1) = 52 + (k + nat e)"
      using e972 by (simp add: e)
    ultimately have "2 ^ 52 * (K * 2 ^ nat e) \<le> b"
      by (simp add: K_def power_add)
    then have m52: "2 ^ 52 \<le> m"
      unfolding m' using d0 by (intro rhe_ge) simp_all
    have "(2::int) ^ 972 \<le> 2 ^ nat e"
      using e972 by (intro power_increasing) simp_all
    then have "2 ^ 52 * 2 ^ 972 \<le> m * 2 ^ nat e"
      using m52 by (intro mult_mono) simp_all
    moreover have "(2::int) ^ 1024 = 2 ^ 52 * 2 ^ 972" by simp
    ultimately show ?thesis by simp
  qed
  show ?thesis
    using td big by (simp only: if_True)
qed

lemma format_quotient_not_ValueError: "format_quotient b d u \<noteq> Inl ValueError"
  by (auto simp: format_quotient_def py_truediv_def Let_def split: sum.splits if_splits)

lemma py_int_na: "py_int (PyStr ''N/A'') = Inl ValueError"
  by (simp add: py_int_of_str_def strip_def is_space_def parse_unsigned_def is_digit_def)

lemma str_nat_length:
  "0 < k \<Longrightarrow> (length (str_nat n) \<le> k) = (n < 10 ^ k)"
proof (induction n arbitrary: k rule: str_nat.induct)
  case (1 n)
  show ?case
  proof (cases "n < 10")
    case True
    have "(10::nat) ^ 1 \<le> 10 ^ k"
      using "1.prems" by (intro power_increasing) simp_all
    then have "n < 10 ^ k" using True by simp
    moreover have "length (str_nat n) = 1"
      using True by (subst str_nat.simps) simp
    ultimately show ?thesis using "1.prems" by simp
  next
    case False
    have len: "length (str_nat n) = Suc (length (str_nat (n div 10)))"
      using False by (subst str_nat.simps) simp
    show ?thesis
    proof (cases k)
      case 0
      then show ?thesis using "1.prems" by simp
    next
      case (Suc j)
      show ?thesis
      proof (cases "j = 0")
        case True
        then show ?thesis using Suc False len by simp
      next
        case nz: False
        have "(length (str_nat (n div 10)) \<le> j) = (n div 10 < 10 ^ j)"
          using "1.IH" [OF False, of j] nz by simp
        moreover have "(n div 10 < 10 ^ j) = (n < 10 ^ Suc j)"
          by (simp add: div_less_iff_less_mult mult.commute)
        ultimately show ?thesis using Suc len by simp
      qed
    qed
  qed
qed

lemma py_str_int_within:
  assumes "- (10 ^ int_max_str_digits) < b" and "b < 10 ^ int_max_str_digits"
  shows "py_str_int b = Inr (str_int b)"
proof -
  have k: "0 < int_max_str_digits" by (simp add: int_max_str_digits_def)
  have "\<bar>b\<bar> < 10 ^ int_max_str_digits" using assms by (simp only: abs_less_iff) simp
  then have "int (nat \<bar>b\<bar>) < int (10 ^ int_max_str_digits)" by simp
  then have "nat \<bar>b\<bar> < 10 ^ int_max_str_digits" by (simp only: of_nat_less_iff)
  then have "length (str_nat (nat \<bar>b\<bar>)) \<le> int_max_str_digits"
    using str_nat_length [OF k, of "nat \<bar>b\<bar>"] by blast
  then show ?thesis
    by (simp only: py_str_int_def not_less [symmetric] if_False)
qed

lemma py_str_int_beyond:
  assumes "10 ^ int_max_str_digits \<le> \<bar>b\<bar>"
  shows "py_str_int b = Inl ValueError"
proof -
  have k: "0 < int_max_str_digits" by (simp add: int_max_str_digits_def)
  have "int (10 ^ int_max_str_digits) \<le> int (nat \<bar>b\<bar>)" using assms by simp
  then have "\<not> nat \<bar>b\<bar> < 10 ^ int_max_str_digits" by (simp only: of_nat_le_iff not_less)
  then have "\<not> length (str_nat (nat \<bar>b\<bar>)) \<le> int_max_str_digits"
    using str_nat_length [OF k, of "nat \<bar>b\<bar>"] by blast
  then have "int_max_str_digits < length (str_nat (nat \<bar>b\<bar>))" by (simp only: not_le)
  then show ?thesis
    by (simp only: py_str_int_def if_True)
qed

lemma limit_above_bytes: "(1024::int) < 10 ^ int_max_str_digits"
proof -
  have "(10::int) ^ 4 \<le> 10 ^ int_max_str_digits"
    by (intro power_increasing) (simp_all add: int_max_str_digits_def)
  moreover have "(1024::int) < 10 ^ 4" by simp
  ultimately show ?thesis by linarith
qed

lemma convert_bytes_of_int:
  assumes "py_int v = Inr b"
  shows "convert_bytes v =
     (if b < 1024 then
        (case py_str_int b of Inl e \<Rightarrow> Inr ''Invalid size'' | Inr s \<Rightarrow> Inr (s @ '' bytes''))
      else if b < 2 ^ 20 then format_quotient b (2 ^ 10) '' KB''
      else if b < 2 ^ 30 then format_quotient b (2 ^ 20) '' MB''
      else format_quotient b (2 ^ 30) '' GB'')"
proof -
  have v: "v \<noteq> PyStr ''N/A''"
    using assms py_int_na by auto
  have c: "(case x of Inl ValueError \<Rightarrow> Inr ''Invalid size'' | r \<Rightarrow> r) = x"
    if "x \<noteq> Inl ValueError" for x :: "exn + string"
    using that by (auto split: sum.splits exn.splits)
  have h: "convert_bytes v =
      (case convert_bytes_body v of Inl ValueError \<Rightarrow> Inr ''Invalid size'' | r \<Rightarrow> r)"
    by (simp only: convert_bytes_def if_not_P [OF v])
  show ?thesis
  proof (cases "b < 1024")
    case True
    have s: "py_str_int b = Inl ValueError \<or> py_str_int b = Inr (str_int b)"
      by (simp add: py_str_int_def)
    have body: "convert_bytes_body v =
        (case py_str_int b of Inl e \<Rightarrow> Inl e | Inr s \<Rightarrow> Inr (s @ '' bytes''))"
      using assms True by (simp add: convert_bytes_body_def)
    from s show ?thesis
    proof
      assume "py_str_int b = Inl ValueError"
      then show ?thesis using True by (simp add: h body)
    next
      assume "py_str_int b = Inr (str_int b)"
      then show ?thesis using True by (simp add: h body)
    qed
  next
    case False
    let ?r = "if b < 2 ^ 20 then format_quotient b (2 ^ 10) '' KB''
      else if b < 2 ^ 30 then format_quotient b (2 ^ 20) '' MB''
      else format_quotient b (2 ^ 30) '' GB''"
    have body: "convert_bytes_body v = ?r"
      using assms False by (simp add: convert_bytes_body_def)
    have nv: "?r \<noteq> Inl ValueError"
      by (simp add: format_quotient_not_ValueError)
    show ?thesis
      using False by (simp only: h body c [OF nv] if_False)
  qed
qed

lemma convert_bytes_invalid:
  assumes "py_int_of_str s = None" and "s \<noteq> ''N/A''"
  shows "convert_bytes (PyStr s) = Inr ''Invalid size''"
  using assms by (simp add: convert_bytes_def convert_bytes_body_def)

lemma format_quotient_finite:
  assumes "2 ^ k \<le> b" and "b < 2 ^ (k + 1024) - 2 ^ (k + 970)"
  shows "\<exists>x. py_truediv b (2 ^ k) = Inr x \<and> format_quotient b (2 ^ k) u = Inr (py_format_2f x @ u)"
  using truediv_finite [OF assms] by (auto simp: format_quotient_def)

lemma format_quotient_overflow:
  assumes "2 ^ (k + 1024) - 2 ^ (k + 970) \<le> b"
  shows "format_quotient b (2 ^ k) u = Inl OverflowError"
  using truediv_overflow [OF assms] by (simp add: format_quotient_def)

lemma convert_bytes_small:
  assumes "py_int v = Inr b" and "- (10 ^ int_max_str_digits) < b" and "b < 1024"
  shows "convert_bytes v = Inr (str_int b @ '' bytes'')"
proof -
  have "b < 10 ^ int_max_str_digits" using assms(3) limit_above_bytes by linarith
  then have "py_str_int b = Inr (str_int b)"
    using assms(2) by (intro py_str_int_within)
  then show ?thesis
    using assms(3) by (simp add: convert_bytes_of_int [OF assms(1)])
qed

lemma convert_bytes_digit_limit:
  assumes "py_int v = Inr b" and "b \<le> - (10 ^ int_max_str_digits)"
  shows "convert_bytes v = Inr ''Invalid size''"
proof -
  have "b < 1024" using assms(2) limit_above_bytes by linarith
  moreover have "10 ^ int_max_str_digits \<le> \<bar>b\<bar>"
    using assms(2) limit_above_bytes by linarith
  then have "py_str_int b = Inl ValueError" by (rule py_str_int_beyond)
  ultimately show ?thesis
    by (simp add: convert_bytes_of_int [OF assms(1)])
qed

lemma convert_bytes_kb:
  assumes "py_int v = Inr b" and "1024 \<le> b" and "b < 1024 * 1024"
  shows "convert_bytes v = Inr (two_decimals b 1024 @ '' KB'')"
proof -
  have "format_quotient b (2 ^ 10) '' KB'' = Inr (two_decimals b (2 ^ 10) @ '' KB'')"
    using assms by (intro format_quotient_exact) simp_all
  then show ?thesis using assms by (simp add: convert_bytes_of_int)
qed

lemma convert_bytes_mb:
  assumes "py_int v = Inr b" and "1024 * 1024 \<le> b" and "b < 1024 * 1024 * 1024"
  shows "convert_bytes v = Inr (two_decimals b (1024 * 1024) @ '' MB'')"
proof -
  have "format_quotient b (2 ^ 20) '' MB'' = Inr (two_decimals b (2 ^ 20) @ '' MB'')"
    using assms by (intro format_quotient_exact) simp_all
  then show ?thesis using assms by (simp add: convert_bytes_of_int)
qed

lemma convert_bytes_gb_exact:
  assumes "py_int v = Inr b" and "1024 * 1024 * 1024 \<le> b" and "b < 2 ^ 53"
  shows "convert_bytes v = Inr (two_decimals b (1024 * 1024 * 1024) @ '' GB'')"
proof -
  have "format_quotient b (2 ^ 30) '' GB'' = Inr (two_decimals b (2 ^ 30) @ '' GB'')"
    using assms by (intro format_quotient_exact) simp_all
  then show ?thesis using assms by (simp add: convert_bytes_of_int)
qed

lemma convert_bytes_gb:
  assumes "py_int v = Inr b" and "1024 * 1024 * 1024 \<le> b" and "b < 2 ^ 1054 - 2 ^ 1000"
  shows "\<exists>x. py_truediv b (1024 * 1024 * 1024) = Inr x \<and> convert_bytes v = Inr (py_format_2f x @ '' GB'')"
proof -
  have "\<exists>x. py_truediv b (2 ^ 30) = Inr x \<and>
      format_quotient b (2 ^ 30) '' GB'' = Inr (py_format_2f x @ '' GB'')"
    using assms by (intro format_quotient_finite) simp_all
  then show ?thesis using assms by (simp add: convert_bytes_of_int)
qed

lemma convert_bytes_overflow:
  assumes "py_int v = Inr b" and "2 ^ 1054 - 2 ^ 1000 \<le> b"
  shows "convert_bytes v = Inl OverflowError"
proof -
  have "format_quotient b (2 ^ 30) '' GB'' = Inl OverflowError"
    using assms by (intro format_quotient_overflow) simp_all
  then show ?thesis using assms by (simp add: convert_bytes_of_int)
qed

lemma convert_bytes_returns:
  assumes "py_int v = Inr b" and "b < 2 ^ 1054 - 2 ^ 1000"
  shows "\<exists>r. convert_bytes v = Inr r"
proof -
  consider "b < 1024" | "1024 \<le> b" "b < 1024 * 1024"
    | "1024 * 1024 \<le> b" "b < 1024 * 1024 * 1024" | "1024 * 1024 * 1024 \<le> b"
    by linarith
  then show ?thesis
  proof cases
    case 1
    have "py_str_int b = Inl ValueError \<or> py_str_int b = Inr (str_int b)"
      by (simp add: py_str_int_def)
    then show ?thesis
      using 1 by (auto simp: convert_bytes_of_int [OF assms(1)])
  next
    case 2
    then show ?thesis using convert_bytes_kb [OF assms(1)] by simp
  next
    case 3
    then show ?thesis using convert_bytes_mb [OF assms(1)] by simp
  next
    case 4
    then show ?thesis using convert_bytes_gb [OF assms(1) _ assms(2)] by blast
  qed
qed

lemma parse_digits_zeros:
  "parse_digits acc (replicate n (CHR ''0'')) = Some (acc * 10 ^ n)"
  by (induction n arbitrary: acc) (simp_all add: is_digit_def digit_val_def)

lemma strip_one_zeros:
  "strip (CHR ''1'' # replicate n (CHR ''0'')) = CHR ''1'' # replicate n (CHR ''0'')"
proof -
  have a: "dropWhile is_space (CHR ''1'' # replicate n (CHR ''0'')) = CHR ''1'' # replicate n (CHR ''0'')"
    by (simp add: is_space_def)
  have b: "dropWhile is_space (replicate n (CHR ''0'') @ [CHR ''1'']) = replicate n (CHR ''0'') @ [CHR ''1'']"
    by (cases n) (simp_all add: is_space_def)
  show ?thesis
    unfolding strip_def a by (simp add: b)
qed

lemma py_int_one_zeros:
  assumes "n < 4300"
  shows "py_int (PyStr (CHR ''1'' # replicate n (CHR ''0''))) = Inr (10 ^ n)"
proof -
  have d: "is_digit (CHR ''1'')" "is_digit (CHR ''0'')" "digit_val (CHR ''1'') = 1"
    by (simp_all add: is_digit_def digit_val_def)
  have "length (filter is_digit (CHR ''1'' # replicate n (CHR ''0''))) = Suc n"
    using d by simp
  then have "\<not> int_max_str_digits < length (filter is_digit (CHR ''1'' # replicate n (CHR ''0'')))"
    using assms by (simp add: int_max_str_digits_def)
  then have "parse_unsigned (CHR ''1'' # replicate n (CHR ''0'')) = Some (10 ^ n)"
    using d by (simp add: parse_unsigned_def parse_digits_zeros)
  then show ?thesis
    by (simp add: py_int_of_str_def strip_one_zeros)
qed

lemma digits_dropWhile_space: "filter is_digit (dropWhile is_space s) = filter is_digit s"
  by (induction s) (auto simp: is_digit_def is_space_def Let_def)

lemma digits_strip: "filter is_digit (strip s) = filter is_digit s"
proof -
  have "filter is_digit (strip s) = rev (filter is_digit (dropWhile is_space (rev (dropWhile is_space s))))"
    by (simp add: strip_def rev_filter)
  also have "\<dots> = rev (filter is_digit (rev (dropWhile is_space s)))"
    by (simp only: digits_dropWhile_space)
  also have "\<dots> = filter is_digit (dropWhile is_space s)"
    by (simp add: rev_filter)
  finally show ?thesis by (simp only: digits_dropWhile_space)
qed

lemma parse_unsigned_long:
  "int_max_str_digits < length (filter is_digit t) \<Longrightarrow> parse_unsigned t = None"
  by (cases t) (auto simp: parse_unsigned_def split: if_splits)

lemma py_int_of_str_long:
  assumes "int_max_str_digits < length (filter is_digit s)"
  shows "py_int_of_str s = None"
proof (cases "strip s")
  case Nil
  then show ?thesis by (simp add: py_int_of_str_def)
next
  case (Cons c cs)
  have l: "int_max_str_digits < length (filter is_digit (c # cs))"
    using assms digits_strip [of s] Cons by simp
  have sg: "\<not> is_digit (CHR ''-'')" "\<not> is_digit (CHR ''+'')"
    by (simp_all add: is_digit_def)
  have "int_max_str_digits < length (filter is_digit cs)" if "c = CHR ''-'' \<or> c = CHR ''+''"
    using that l sg by auto
  then show ?thesis
    using Cons l by (auto simp: py_int_of_str_def parse_unsigned_long)
qed

lemma digits_na: "filter is_digit ''N/A'' = []"
  by (simp add: is_digit_def)

lemma py_int_not_a_number: "py_int_of_str ''not-a-number'' = None"
  by (simp add: py_int_of_str_def strip_def is_space_def parse_unsigned_def is_digit_def)

lemma py_int_separator: "py_int_of_str [CHR 0x1C, CHR ''5''] = None"
  by (simp add: py_int_of_str_def strip_def is_space_def parse_unsigned_def is_digit_def)

lemma py_int_2048: "py_int (PyStr ''2048'') = Inr 2048"
  by (simp add: py_int_of_str_def strip_def is_space_def parse_unsigned_def is_digit_def
      digit_val_def int_max_str_digits_def)

lemma two_decimals_one:
  "two_decimals 1024 1024 = ''1.00''"
  "two_decimals 1048576 (1024 * 1024) = ''1.00''"
  "two_decimals 1073741824 (1024 * 1024 * 1024) = ''1.00''"
  by code_simp+

lemma str_int_examples:
  "str_int 0 = ''0''" "str_int 1023 = ''1023''" "str_int (- 5) = ''-5''"
  by code_simp+

section \<open>Claims\<close>

text \<open>
  C1 (pagination completeness, both loops). For every sequence of page responses in
  which all but the last carry a token, the loop of \<^verbatim>\<open>remove_duplicate_files\<close>
  requests every page with the token of the page before and returns the concatenation
  of the pages, empty pages included. The loop of \<^verbatim>\<open>list_files\<close> does the same only
  when no page is empty: it leaves at the first page without records, whatever token
  that page carries, so the records of the pages after an empty page are lost.
\<close>

theorem pagination_completeness:
  "((\<forall>p\<in>set pages. more_pages p) \<and> \<not> more_pages final \<longrightarrow>
      fetch_all_pages (map Inr pages @ Inr final # rest) tok acc tr =
        Some (Inr (acc @ concat (map get_files (pages @ [final]))), rest,
              tr @ map ListCall (tok # map nextPageToken pages)))
   \<and> ((\<forall>p\<in>set pages. get_files p \<noteq> [] \<and> more_pages p)
        \<and> get_files final \<noteq> [] \<and> \<not> more_pages final \<longrightarrow>
      list_files_loop (map Inr pages @ Inr final # rest) tok acc tr =
        Some (Inr (acc @ concat (map get_files (pages @ [final]))), rest,
              tr @ map ListCall (tok # map nextPageToken pages)))
   \<and> list_files_loop (Inr \<lparr>files = Some [], nextPageToken = t\<rparr> # script) tok acc tr =
        Some (Inr acc, script, tr @ [ListCall tok])"
proof (intro conjI impI)
  show "fetch_all_pages (map Inr pages @ Inr final # rest) tok acc tr =
        Some (Inr (acc @ concat (map get_files (pages @ [final]))), rest,
              tr @ map ListCall (tok # map nextPageToken pages))"
    if "(\<forall>p\<in>set pages. more_pages p) \<and> \<not> more_pages final"
    using that fetch_all_pages_complete [of pages final rest tok acc tr] by simp
  show "list_files_loop (map Inr pages @ Inr final # rest) tok acc tr =
        Some (Inr (acc @ concat (map get_files (pages @ [final]))), rest,
              tr @ map ListCall (tok # map nextPageToken pages))"
    if "(\<forall>p\<in>set pages. get_files p \<noteq> [] \<and> more_pages p)
        \<and> get_files final \<noteq> [] \<and> \<not> more_pages final"
    using that list_files_loop_complete [of pages final rest tok acc tr] by simp
  show "list_files_loop (Inr \<lparr>files = Some [], nextPageToken = t\<rparr> # script) tok acc tr =
        Some (Inr acc, script, tr @ [ListCall tok])"
    by (simp add: get_files_def)
qed

text \<open>
  An empty first page with token \<^verbatim>\<open>t1\<close>, then a page with one record: the loop of
  \<^verbatim>\<open>remove_duplicate_files\<close> requests both pages and returns the record; the loop
  of \<^verbatim>\<open>list_files\<close> would return it from the second page, but \<^verbatim>\<open>list_files\<close>
  requests the first page only and returns the empty list.
\<close>

theorem pagination_completeness_witness:
  "fetch_all_pages empty_page_script None [] [] =
     Some (Inr [\<lparr>file_id = ''id1'', file_name = ''a''\<rparr>], [],
           [ListCall None, ListCall (Some ''t1'')])
   \<and> list_files_loop (tl empty_page_script) (Some ''t1'') [] [] =
     Some (Inr [\<lparr>file_id = ''id1'', file_name = ''a''\<rparr>], [], [ListCall (Some ''t1'')])
   \<and> list_files (idle_store\<lparr>list_script := empty_page_script\<rparr>) =
     Some (Inr [], idle_store\<lparr>list_script := tl empty_page_script, calls := [ListCall None]\<rparr>)"
proof -
  let ?p = "\<lparr>files = Some [], nextPageToken = Some ''t1''\<rparr>"
  let ?f = "\<lparr>file_id = ''id1'', file_name = ''a''\<rparr>"
  let ?q = "\<lparr>files = Some [?f], nextPageToken = None\<rparr>"
  note t = pagination_completeness
  have h: "\<forall>p\<in>set [?p]. more_pages p" "\<not> more_pages ?q" "get_files ?q \<noteq> []"
      "\<forall>p\<in>set []. get_files p \<noteq> [] \<and> more_pages p"
    by (simp_all add: more_pages_def truthy_def get_files_def)
  have s: "empty_page_script = map Inr [?p] @ Inr ?q # []"
      "tl empty_page_script = map Inr [] @ Inr ?q # []"
      "empty_page_script = Inr ?p # tl empty_page_script"
    by (simp_all add: empty_page_script_def)
  have g: "get_files ?p = []" "get_files ?q = [?f]"
    by (simp_all add: get_files_def)
  have w1: "fetch_all_pages empty_page_script None [] [] =
     Some (Inr [?f], [], [ListCall None, ListCall (Some ''t1'')])"
    using t [where pages = "[?p]" and final = ?q and rest = "[]" and tok = None and acc = "[]"
        and tr = "[]" and t = None and script = "[]", THEN conjunct1] h g
    unfolding s(1) by simp
  have w2: "list_files_loop (tl empty_page_script) (Some ''t1'') [] [] =
     Some (Inr [?f], [], [ListCall (Some ''t1'')])"
    using t [where pages = "[]" and final = ?q and rest = "[]" and tok = "Some ''t1''"
        and acc = "[]" and tr = "[]" and t = None and script = "[]",
        THEN conjunct2, THEN conjunct1] h g
    unfolding s(2) by simp
  have "list_files_loop empty_page_script None [] [] =
     Some (Inr [], tl empty_page_script, [ListCall None])"
    using t [where pages = "[]" and final = ?q and rest = "[]" and tok = None
        and acc = "[]" and tr = "[]" and t = "Some ''t1''" and script = "tl empty_page_script",
        THEN conjunct2, THEN conjunct2] s(3)
    by simp
  then have w3: "list_files (idle_store\<lparr>list_script := empty_page_script\<rparr>) =
     Some (Inr [], idle_store\<lparr>list_script := tl empty_page_script, calls := [ListCall None]\<rparr>)"
    by (simp add: list_files_def idle_store_def except_Exception_def)
  show ?thesis using w1 w2 w3 by simp
qed

text \<open>
  C2 (first-seen id survives). The scan maps every name to the id of the first record
  that carries it and collects, in catalog order, the ids of the records whose name
  occurred earlier; once the listing has delivered the catalog, the pass issues exactly
  one delete request per collected id, in that order, after the listing requests; and
  (ids being the records' identity) a record whose name no other record carries is not
  among them.
\<close>

theorem dedup_first_seen_survives:
  "fst (scan_duplicates fls Map.empty []) n = first_seen fls n
   \<and> snd (scan_duplicates fls Map.empty []) = later_ids fls
   \<and> (fetch_all_pages (list_script st) None [] (calls st) = Some (Inr fls, rest, tr) \<longrightarrow>
        remove_duplicate_files st =
          Some (Inr PyNone, st\<lparr>list_script := rest, calls := tr @ map DeleteCall (later_ids fls)\<rparr>))
   \<and> (distinct (map file_id fls) \<and> f \<in> set fls
        \<and> (\<forall>g\<in>set fls. file_name g = file_name f \<longrightarrow> g = f) \<longrightarrow>
        file_id f \<notin> set (later_ids fls))"
  using scan_first_seen [of fls Map.empty "[]" n] scan_later_ids [of fls]
    rdf_after_listing [of st fls rest tr] unique_name_not_later [of fls f]
  by simp

text \<open>
  The catalog \<^verbatim>\<open>[(id1,a), (id2,a), (id3,b), (id4,a)]\<close>: the survivor for \<^verbatim>\<open>a\<close> is
  \<^verbatim>\<open>id1\<close>, the deletions requested are \<^verbatim>\<open>id2\<close> then \<^verbatim>\<open>id4\<close>, and \<^verbatim>\<open>id3\<close>
  is not touched.
\<close>

theorem dedup_first_seen_survives_witness:
  "first_seen example_catalog ''a'' = Some ''id1''
   \<and> snd (scan_duplicates example_catalog Map.empty []) = [''id2'', ''id4'']
   \<and> remove_duplicate_files example_store =
        Some (Inr PyNone, example_store\<lparr>list_script := [],
          calls := [ListCall None, DeleteCall ''id2'', DeleteCall ''id4'']\<rparr>)
   \<and> ''id3'' \<notin> set (later_ids example_catalog)"
proof -
  let ?f = "\<lparr>file_id = ''id3'', file_name = ''b''\<rparr>"
  have h1: "distinct (map file_id example_catalog)"
    by (simp add: example_catalog_def)
  have h2: "?f \<in> set example_catalog"
    by (simp add: example_catalog_def)
  have h3: "\<forall>g\<in>set example_catalog. file_name g = file_name ?f \<longrightarrow> g = ?f"
    by (simp add: example_catalog_def)
  have fs: "first_seen example_catalog ''a'' = Some ''id1''"
    by (simp add: first_seen_def example_catalog_def)
  show ?thesis
    using dedup_first_seen_survives [of example_catalog "''a''" example_store "[]" "[ListCall None]" ?f]
      h1 h2 h3 fs example_listing later_ids_example
    by simp
qed

text \<open>
  C3 as stated fails: on the example catalog two deletions are requested and the
  method returns \<^verbatim>\<open>None\<close>, not the count 2.
\<close>

theorem dedup_returns_count_counterexample:
  "map_option fst (remove_duplicate_files example_store) \<noteq> Some (Inr (PyInt 2))
   \<and> map_option (calls \<circ> snd) (remove_duplicate_files example_store) =
       Some [ListCall None, DeleteCall ''id2'', DeleteCall ''id4'']"
  using rdf_after_listing [OF example_listing] later_ids_example by simp

text \<open>
  C3, amended. For every listing that ends (pages with tokens, then a page without),
  the pass requests the deletion of each later-seen id and returns \<^verbatim>\<open>None\<close>,
  whatever the number of deletions requested; when the catalog is empty it requests
  no deletion and returns \<^verbatim>\<open>None\<close>.
\<close>

theorem dedup_returns_none:
  "((\<forall>p\<in>set pages. more_pages p) \<and> \<not> more_pages final
      \<and> list_script st = map Inr pages @ Inr final # rest \<longrightarrow>
      remove_duplicate_files st =
        Some (Inr PyNone,
          st\<lparr>list_script := rest,
             calls := calls st @ map ListCall (None # map nextPageToken pages)
               @ map DeleteCall (later_ids (concat (map get_files (pages @ [final]))))\<rparr>))
   \<and> ((\<forall>p\<in>set pages. more_pages p) \<and> \<not> more_pages final
      \<and> list_script st = map Inr pages @ Inr final # rest
      \<and> concat (map get_files (pages @ [final])) = [] \<longrightarrow>
      remove_duplicate_files st =
        Some (Inr PyNone,
          st\<lparr>list_script := rest,
             calls := calls st @ map ListCall (None # map nextPageToken pages)\<rparr>))"
proof -
  have a: "remove_duplicate_files st =
        Some (Inr PyNone,
          st\<lparr>list_script := rest,
             calls := calls st @ map ListCall (None # map nextPageToken pages)
               @ map DeleteCall (later_ids (concat (map get_files (pages @ [final]))))\<rparr>)"
    if h: "\<forall>p\<in>set pages. more_pages p" "\<not> more_pages final"
      "list_script st = map Inr pages @ Inr final # rest"
    using rdf_after_listing [of st "concat (map get_files (pages @ [final]))" rest
        "calls st @ map ListCall (None # map nextPageToken pages)"]
      fetch_all_pages_complete [OF h(1) h(2), of rest None "[]" "calls st"] h(3)
    by simp
  have b: "remove_duplicate_files st =
        Some (Inr PyNone,
          st\<lparr>list_script := rest,
             calls := calls st @ map ListCall (None # map nextPageToken pages)\<rparr>)"
    if h: "\<forall>p\<in>set pages. more_pages p" "\<not> more_pages final"
      "list_script st = map Inr pages @ Inr final # rest"
      "concat (map get_files (pages @ [final])) = []"
    using a [OF h(1) h(2) h(3)] unfolding h(4) by (simp add: later_ids_def)
  show ?thesis
    using a b by blast
qed

theorem dedup_returns_none_witness:
  "remove_duplicate_files example_store =
     Some (Inr PyNone, example_store\<lparr>list_script := [],
        calls := [ListCall None, DeleteCall ''id2'', DeleteCall ''id4'']\<rparr>)
   \<and> remove_duplicate_files
        (idle_store\<lparr>list_script := [Inr \<lparr>files = Some [], nextPageToken = None\<rparr>]\<rparr>) =
     Some (Inr PyNone, idle_store\<lparr>list_script := [], calls := [ListCall None]\<rparr>)"
proof -
  let ?final = "\<lparr>files = Some example_catalog, nextPageToken = None\<rparr>"
  let ?empty = "\<lparr>files = Some [], nextPageToken = None\<rparr>"
  let ?st = "idle_store\<lparr>list_script := [Inr ?empty]\<rparr>"
  have h1: "\<forall>p\<in>set []. more_pages p" by simp
  have h2: "\<not> more_pages ?final" "\<not> more_pages ?empty"
    by (simp_all add: more_pages_def truthy_def)
  have h3: "list_script example_store = map Inr [] @ Inr ?final # []"
    by (simp add: example_store_def)
  have h4: "list_script ?st = map Inr [] @ Inr ?empty # []"
    by simp
  have h5: "concat (map get_files ([] @ [?empty])) = []"
    by (simp add: get_files_def)
  have c: "calls example_store = []" "calls ?st = []"
    by (simp_all add: example_store_def idle_store_def)
  have g: "get_files ?final = example_catalog"
    by (simp add: get_files_def)
  have w1: "remove_duplicate_files example_store =
     Some (Inr PyNone, example_store\<lparr>list_script := [],
        calls := [ListCall None, DeleteCall ''id2'', DeleteCall ''id4'']\<rparr>)"
    using dedup_returns_none [of "[]" ?final example_store "[]"] h1 h2(1) h3 c(1) g later_ids_example
    by simp
  have w2: "remove_duplicate_files ?st = Some (Inr PyNone, ?st\<lparr>list_script := [], calls := [ListCall None]\<rparr>)"
    using dedup_returns_none [of "[]" ?empty ?st "[]"] h1 h2(2) h4 h5 c(2)
    by (simp add: later_ids_def)
  show ?thesis
    using w1 w2 by simp
qed

text \<open>
  C5 (delete failures are absorbed). \<^verbatim>\<open>delete_file\<close> returns \<^verbatim>\<open>True\<close> when the
  store accepts the request and \<^verbatim>\<open>False\<close> when the store raises, and never raises
  itself; the delete loop requests every id it is given whatever the outcomes; so the
  pass requests the deletion of every collected id and returns normally.
\<close>

theorem delete_failures_do_not_abort:
  "delete_file st fid =
     (Inr (delete_outcome st (calls st) fid = None), st\<lparr>calls := calls st @ [DeleteCall fid]\<rparr>)
   \<and> delete_loop st ids = (Inr (), st\<lparr>calls := calls st @ map DeleteCall ids\<rparr>)
   \<and> (fetch_all_pages (list_script st) None [] (calls st) = Some (Inr fls, rest, tr) \<longrightarrow>
        map_option fst (remove_duplicate_files st) = Some (Inr PyNone)
        \<and> map_option (calls \<circ> snd) (remove_duplicate_files st) =
            Some (tr @ map DeleteCall (later_ids fls)))"
  using delete_file_result [of st fid] delete_loop_result [of st ids]
    rdf_after_listing [of st fls rest tr]
  by simp

text \<open>
  With a store that rejects the deletion of \<^verbatim>\<open>id2\<close>: \<^verbatim>\<open>id4\<close> is still requested.
\<close>

theorem delete_failures_do_not_abort_witness:
  "fst (delete_file rejecting_store ''id2'') = Inr False
   \<and> fst (delete_file rejecting_store ''id4'') = Inr True
   \<and> map_option fst (remove_duplicate_files rejecting_store) = Some (Inr PyNone)
   \<and> map_option (calls \<circ> snd) (remove_duplicate_files rejecting_store) =
       Some [ListCall None, DeleteCall ''id2'', DeleteCall ''id4'']"
proof -
  have d: "delete_outcome rejecting_store (calls rejecting_store) ''id2'' = Some HttpError"
      "delete_outcome rejecting_store (calls rejecting_store) ''id4'' = None"
    by (simp_all add: rejecting_store_def)
  show ?thesis
    using delete_failures_do_not_abort [of rejecting_store "''id2''" "[]" example_catalog "[]" "[ListCall None]"]
      delete_failures_do_not_abort [of rejecting_store "''id4''" "[]" example_catalog "[]" "[ListCall None]"]
      rejecting_listing later_ids_example d
    by simp
qed

text \<open>
  C10 (the pass never raises). Whatever the store does, the pass either does not return
  (the store never stops issuing tokens) or returns \<^verbatim>\<open>None\<close>; it returns whenever
  the listing ends; and when a page request fails after any number of pages, it returns
  \<^verbatim>\<open>None\<close> having made the listing requests only, with no deletion requested.
\<close>

theorem dedup_pass_never_raises:
  "(remove_duplicate_files st = None \<or> (\<exists>st'. remove_duplicate_files st = Some (Inr PyNone, st')))
   \<and> (enumeration_ends (list_script st) \<longrightarrow> remove_duplicate_files st \<noteq> None)
   \<and> ((\<forall>p\<in>set pages. more_pages p) \<and> list_script st = map Inr pages @ Inl e # rest \<longrightarrow>
        remove_duplicate_files st =
          Some (Inr PyNone,
            st\<lparr>list_script := rest,
               calls := calls st @ map ListCall (None # map nextPageToken pages)\<rparr>))"
proof -
  have a: "remove_duplicate_files st = None \<or> (\<exists>st'. remove_duplicate_files st = Some (Inr PyNone, st'))"
  proof (cases "remove_duplicate_files st")
    case None
    then show ?thesis by simp
  next
    case (Some x)
    then show ?thesis using rdf_never_raises [of st "fst x" "snd x"] by (cases x) simp
  qed
  have c: "remove_duplicate_files st =
          Some (Inr PyNone,
            st\<lparr>list_script := rest,
               calls := calls st @ map ListCall (None # map nextPageToken pages)\<rparr>)"
    if h: "\<forall>p\<in>set pages. more_pages p" "list_script st = map Inr pages @ Inl e # rest"
    using rdf_listing_error [of st e rest "calls st @ map ListCall (None # map nextPageToken pages)"]
      fetch_all_pages_error [OF h(1), of e rest None "[]" "calls st"] h(2)
    by simp
  show ?thesis
    using a c rdf_returns [of st] by blast
qed

theorem dedup_pass_never_raises_witness:
  "remove_duplicate_files
     (idle_store\<lparr>list_script :=
        [Inr \<lparr>files = Some example_catalog, nextPageToken = Some ''t1''\<rparr>, Inl HttpError]\<rparr>) =
   Some (Inr PyNone, idle_store\<lparr>list_script := [], calls := [ListCall None, ListCall (Some ''t1'')]\<rparr>)
   \<and> remove_duplicate_files example_store \<noteq> None"
proof -
  let ?p = "\<lparr>files = Some example_catalog, nextPageToken = Some ''t1''\<rparr>"
  let ?st = "idle_store\<lparr>list_script := [Inr ?p, Inl HttpError]\<rparr>"
  have h1: "\<forall>p\<in>set [?p]. more_pages p"
    by (simp add: more_pages_def truthy_def)
  have h2: "list_script ?st = map Inr [?p] @ Inl HttpError # []"
    by simp
  have h3: "enumeration_ends (list_script example_store)"
    by (simp add: enumeration_ends_def example_store_def idle_store_def more_pages_def truthy_def)
  have c: "calls ?st = []"
    by (simp add: idle_store_def)
  show ?thesis
    using dedup_pass_never_raises [of ?st "[?p]" HttpError "[]"]
      dedup_pass_never_raises [of example_store "[]" HttpError "[]"] h1 h2 h3 c
    by simp
qed

text \<open>
  C4 as stated fails: an unreadable local path, a rejected create request, a media
  fetch that fails after the first chunk and a failed page request all end in a normal
  return (\<^verbatim>\<open>None\<close>, \<^verbatim>\<open>None\<close>, \<^verbatim>\<open>None\<close> and the empty list).
\<close>

theorem failures_propagate_counterexample:
  "fst (upload_pdf failing_store ''missing.pdf'' ''x.pdf'') = Inr PyNone
   \<and> fst (upload_pdf failing_store ''local.pdf'' ''x.pdf'') = Inr PyNone
   \<and> map_option fst (download_pdf failing_store ''id1'' ''out.pdf'') = Some (Inr PyNone)
   \<and> map_option fst (list_files failing_store) = Some (Inr [])"
  by (simp add: failing_store_def idle_store_def upload_pdf_def upload_pdf_body_def open_rb_def
      download_pdf_def download_pdf_body_def list_files_def except_Exception_def Let_def)

text \<open>
  C4, amended. Upload, download and listing absorb every failure: \<^verbatim>\<open>upload_pdf\<close>
  always returns normally, with \<^verbatim>\<open>None\<close> when the local path cannot be read or the
  store rejects the request; \<^verbatim>\<open>download_pdf\<close> returns \<^verbatim>\<open>None\<close> whenever it returns,
  also when the destination cannot be opened or a chunk fails mid-stream (the bytes
  written so far stay in the file); \<^verbatim>\<open>list_files\<close> returns a list whenever it
  returns, and the empty list when a page request fails, dropping the records of the
  pages already fetched.
\<close>

theorem transfers_and_listing_absorb_failures:
  "(\<exists>v. fst (upload_pdf st p n) = Inr v)
   \<and> (open_rb st p = Inl e \<longrightarrow> upload_pdf st p n = (Inr PyNone, st))
   \<and> (open_rb st p = Inr m \<and> create_outcome st (calls st) n = Inl e \<longrightarrow>
        upload_pdf st p n = (Inr PyNone, st\<lparr>calls := calls st @ [CreateCall n m]\<rparr>))
   \<and> (download_pdf st fid path = Some (r, st') \<longrightarrow> r = Inr PyNone)
   \<and> (open_error st path = Some e \<longrightarrow>
        download_pdf st fid path = Some (Inr PyNone, st\<lparr>calls := calls st @ [MediaCall fid]\<rparr>))
   \<and> (open_error st path = None \<and> media_script st fid = map Inr cs @ Inl e # more_chunks
        \<and> (\<forall>c\<in>set cs. \<not> done_flag c) \<longrightarrow>
        download_pdf st fid path =
          Some (Inr PyNone, st\<lparr>calls := calls st @ [MediaCall fid],
                               fs := (fs st)(path \<mapsto> concat (map data cs)),
                               progress_seen := progress_seen st @ map progress cs\<rparr>))
   \<and> (list_files st = Some (lr, lst') \<longrightarrow> (\<exists>fls. lr = Inr fls))
   \<and> ((\<forall>pg\<in>set pages. get_files pg \<noteq> [] \<and> more_pages pg)
        \<and> list_script st = map Inr pages @ Inl e # rest \<longrightarrow>
        list_files st =
          Some (Inr [], st\<lparr>list_script := rest,
                           calls := calls st @ map ListCall (None # map nextPageToken pages)\<rparr>))"
proof -
  have d: "r = Inr PyNone" if "download_pdf st fid path = Some (r, st')"
  proof -
    from that obtain r0 where b: "download_pdf_body st fid path = Some (r0, st')"
      and r: "r = except_Exception r0 PyNone"
      by (auto simp: download_pdf_def)
    have "r0 = Inr v \<Longrightarrow> v = PyNone" for v
      using b by (auto simp: download_pdf_body_def Let_def split: option.splits sum.splits prod.splits)
    then show ?thesis using r by (cases r0) (simp_all add: except_Exception_def)
  qed
  show ?thesis
  proof (intro conjI impI)
    show "\<exists>v. fst (upload_pdf st p n) = Inr v"
      by (rule upload_pdf_returns)
    show "upload_pdf st p n = (Inr PyNone, st)" if "open_rb st p = Inl e"
      using that by (rule upload_pdf_unreadable)
    show "upload_pdf st p n = (Inr PyNone, st\<lparr>calls := calls st @ [CreateCall n m]\<rparr>)"
      if "open_rb st p = Inr m \<and> create_outcome st (calls st) n = Inl e"
      using that upload_pdf_rejected [of st p m n e] by simp
    show "r = Inr PyNone" if "download_pdf st fid path = Some (r, st')"
      using that by (rule d)
    show "download_pdf st fid path = Some (Inr PyNone, st\<lparr>calls := calls st @ [MediaCall fid]\<rparr>)"
      if "open_error st path = Some e"
      using that by (rule download_pdf_unwritable)
    show "download_pdf st fid path =
          Some (Inr PyNone, st\<lparr>calls := calls st @ [MediaCall fid],
                               fs := (fs st)(path \<mapsto> concat (map data cs)),
                               progress_seen := progress_seen st @ map progress cs\<rparr>)"
      if "open_error st path = None \<and> media_script st fid = map Inr cs @ Inl e # more_chunks
        \<and> (\<forall>c\<in>set cs. \<not> done_flag c)"
      using that download_pdf_midstream [of st path fid cs e more_chunks] by simp
    show "\<exists>fls. lr = Inr fls" if "list_files st = Some (lr, lst')"
      using that by (rule list_files_returns)
    show "list_files st =
          Some (Inr [], st\<lparr>list_script := rest,
                           calls := calls st @ map ListCall (None # map nextPageToken pages)\<rparr>)"
      if "(\<forall>pg\<in>set pages. get_files pg \<noteq> [] \<and> more_pages pg)
        \<and> list_script st = map Inr pages @ Inl e # rest"
      using that list_files_page_failure [of pages st e rest] by simp
  qed
qed

theorem transfers_and_listing_absorb_failures_witness:
  "upload_pdf failing_store ''missing.pdf'' ''x.pdf'' = (Inr PyNone, failing_store)
   \<and> upload_pdf failing_store ''local.pdf'' ''x.pdf'' =
       (Inr PyNone, failing_store\<lparr>calls := [CreateCall ''x.pdf'' ''%PDF'']\<rparr>)
   \<and> download_pdf failing_store ''id1'' ''out.pdf'' =
       Some (Inr PyNone, failing_store\<lparr>calls := [MediaCall ''id1''],
              fs := (fs failing_store)(''out.pdf'' \<mapsto> ''ab''), progress_seen := [1 / 2]\<rparr>)
   \<and> list_files failing_store =
       Some (Inr [], failing_store\<lparr>list_script := [], calls := [ListCall None]\<rparr>)"
proof -
  let ?c = "\<lparr>data = ''ab'', progress = 1 / 2, done_flag = False\<rparr>"
  have u1: "open_rb failing_store ''missing.pdf'' = Inl FileNotFoundError"
    by (simp add: failing_store_def idle_store_def open_rb_def)
  have u2: "open_rb failing_store ''local.pdf'' = Inr ''%PDF''"
      "create_outcome failing_store (calls failing_store) ''x.pdf'' = Inl HttpError"
    by (simp_all add: failing_store_def idle_store_def open_rb_def)
  have d1: "open_error failing_store ''out.pdf'' = None"
      "media_script failing_store ''id1'' = map Inr [?c] @ Inl HttpError # []"
      "\<forall>c\<in>set [?c]. \<not> done_flag c"
    by (simp_all add: failing_store_def idle_store_def)
  have l1: "\<forall>pg\<in>set []. get_files pg \<noteq> [] \<and> more_pages pg"
      "list_script failing_store = map Inr [] @ Inl HttpError # []"
    by (simp_all add: failing_store_def)
  have c: "calls failing_store = []" "progress_seen failing_store = []"
    by (simp_all add: failing_store_def idle_store_def)
  note t = transfers_and_listing_absorb_failures
  have w1: "upload_pdf failing_store ''missing.pdf'' ''x.pdf'' = (Inr PyNone, failing_store)"
    using t [where st = failing_store and p = "''missing.pdf''" and n = "''x.pdf''" and e = FileNotFoundError and m = "''%PDF''"
          and fid = "''id1''" and path = "''out.pdf''" and r = "Inr PyNone" and st' = failing_store
          and cs = "[?c]" and more_chunks = "[]" and lr = "Inr []" and lst' = failing_store
          and pages = "[]" and rest = "[]", THEN conjunct2, THEN conjunct1] u1
    by simp
  have w2: "upload_pdf failing_store ''local.pdf'' ''x.pdf'' =
       (Inr PyNone, failing_store\<lparr>calls := [CreateCall ''x.pdf'' ''%PDF'']\<rparr>)"
    using t [where st = failing_store and p = "''local.pdf''" and n = "''x.pdf''" and e = HttpError and m = "''%PDF''"
          and fid = "''id1''" and path = "''out.pdf''" and r = "Inr PyNone" and st' = failing_store
          and cs = "[?c]" and more_chunks = "[]" and lr = "Inr []" and lst' = failing_store
          and pages = "[]" and rest = "[]", THEN conjunct2, THEN conjunct2, THEN conjunct1] u2 c
    by simp
  have w3: "download_pdf failing_store ''id1'' ''out.pdf'' =
       Some (Inr PyNone, failing_store\<lparr>calls := [MediaCall ''id1''],
              fs := (fs failing_store)(''out.pdf'' \<mapsto> ''ab''), progress_seen := [1 / 2]\<rparr>)"
    using t [where st = failing_store and p = "''local.pdf''" and n = "''x.pdf''" and e = HttpError and m = "''%PDF''"
          and fid = "''id1''" and path = "''out.pdf''" and r = "Inr PyNone" and st' = failing_store
          and cs = "[?c]" and more_chunks = "[]" and lr = "Inr []" and lst' = failing_store
          and pages = "[]" and rest = "[]", THEN conjunct2, THEN conjunct2, THEN conjunct2, THEN conjunct2, THEN conjunct2,
          THEN conjunct1] d1 c
    by simp
  have w4: "list_files failing_store =
       Some (Inr [], failing_store\<lparr>list_script := [], calls := [ListCall None]\<rparr>)"
    using t [where st = failing_store and p = "''local.pdf''" and n = "''x.pdf''" and e = HttpError and m = "''%PDF''"
          and fid = "''id1''" and path = "''out.pdf''" and r = "Inr PyNone" and st' = failing_store
          and cs = "[?c]" and more_chunks = "[]" and lr = "Inr []" and lst' = failing_store
          and pages = "[]" and rest = "[]", THEN conjunct2, THEN conjunct2, THEN conjunct2, THEN conjunct2, THEN conjunct2,
          THEN conjunct2, THEN conjunct2] l1 c
    by simp
  show ?thesis using w1 w2 w3 w4 by simp
qed

text \<open>
  C9 as stated fails: a failure of the metadata read that is not an \<^verbatim>\<open>HttpError\<close>
  (here a timeout) leaves \<^verbatim>\<open>get_drive_info\<close> as an exception.
\<close>

theorem quota_never_raises_counterexample:
  "fst (get_drive_info failing_store) = Inl TimeoutError"
  by (simp add: failing_store_def idle_store_def get_drive_info_def get_drive_info_body_def
      except_HttpError_def Let_def)

text \<open>
  C9, amended. The quota reporter absorbs an \<^verbatim>\<open>HttpError\<close> of the metadata read and
  returns the empty dictionary; any other exception of the read propagates. When the
  store omits the quota, the limit or the usage, the corresponding field is
  \<^verbatim>\<open>N/A\<close> and a field that is present is formatted on its own.
\<close>

theorem quota_absorbs_http_errors_only:
  "(about_outcome st = Inl HttpError \<longrightarrow> fst (get_drive_info st) = Inr [])
   \<and> (about_outcome st = Inl e \<and> e \<noteq> HttpError \<longrightarrow> fst (get_drive_info st) = Inl e)
   \<and> (about_outcome st = Inr None \<longrightarrow>
        fst (get_drive_info st) =
          Inr [(''total_space'', PyStr ''N/A''), (''used_space'', PyStr ''N/A'')])
   \<and> (about_outcome st = Inr (Some \<lparr>limit = None, usage = Some v\<rparr>) \<and> convert_bytes v = Inr s \<longrightarrow>
        fst (get_drive_info st) =
          Inr [(''total_space'', PyStr ''N/A''), (''used_space'', PyStr s)])
   \<and> (about_outcome st = Inr (Some \<lparr>limit = Some v, usage = None\<rparr>) \<and> convert_bytes v = Inr s \<longrightarrow>
        fst (get_drive_info st) =
          Inr [(''total_space'', PyStr s), (''used_space'', PyStr ''N/A'')])
   \<and> (about_outcome st = Inr (Some \<lparr>limit = Some v, usage = Some w\<rparr>)
        \<and> convert_bytes v = Inr s \<and> convert_bytes w = Inr t \<longrightarrow>
        fst (get_drive_info st) =
          Inr [(''total_space'', PyStr s), (''used_space'', PyStr t)])"
  using gdi_http_error [of st] gdi_other_error [of st e]
    gdi_formats [of st None "\<lparr>limit = None, usage = None\<rparr>" "''N/A''" "''N/A''"]
    gdi_formats [of st "Some \<lparr>limit = None, usage = Some v\<rparr>" "\<lparr>limit = None, usage = Some v\<rparr>" "''N/A''" s]
    gdi_formats [of st "Some \<lparr>limit = Some v, usage = None\<rparr>" "\<lparr>limit = Some v, usage = None\<rparr>" s "''N/A''"]
    gdi_formats [of st "Some \<lparr>limit = Some v, usage = Some w\<rparr>" "\<lparr>limit = Some v, usage = Some w\<rparr>" s t]
  by (simp add: get_or_na_def convert_bytes_na)

theorem quota_absorbs_http_errors_only_witness:
  "fst (get_drive_info (idle_store\<lparr>about_outcome := Inl HttpError\<rparr>)) = Inr []
   \<and> fst (get_drive_info failing_store) = Inl TimeoutError
   \<and> fst (get_drive_info idle_store) =
       Inr [(''total_space'', PyStr ''N/A''), (''used_space'', PyStr ''N/A'')]
   \<and> fst (get_drive_info (idle_store\<lparr>about_outcome :=
         Inr (Some \<lparr>limit = None, usage = Some (PyStr ''2048'')\<rparr>)\<rparr>)) =
       Inr [(''total_space'', PyStr ''N/A''), (''used_space'', PyStr ''2.00 KB'')]
   \<and> fst (get_drive_info (idle_store\<lparr>about_outcome :=
         Inr (Some \<lparr>limit = Some (PyStr ''2048''), usage = None\<rparr>)\<rparr>)) =
       Inr [(''total_space'', PyStr ''2.00 KB''), (''used_space'', PyStr ''N/A'')]
   \<and> fst (get_drive_info (idle_store\<lparr>about_outcome :=
         Inr (Some \<lparr>limit = Some (PyStr ''2048''), usage = Some (PyStr ''2048'')\<rparr>)\<rparr>)) =
       Inr [(''total_space'', PyStr ''2.00 KB''), (''used_space'', PyStr ''2.00 KB'')]"
proof -
  let ?v = "PyStr ''2048''"
  have a: "about_outcome failing_store = Inl TimeoutError" "about_outcome idle_store = Inr None"
    by (simp_all add: failing_store_def idle_store_def)
  have w1: "fst (get_drive_info (idle_store\<lparr>about_outcome := Inl HttpError\<rparr>)) = Inr []"
    using quota_absorbs_http_errors_only [of "idle_store\<lparr>about_outcome := Inl HttpError\<rparr>"] by simp
  have w2: "fst (get_drive_info failing_store) = Inl TimeoutError"
    using quota_absorbs_http_errors_only [of failing_store TimeoutError] a by simp
  have w3: "fst (get_drive_info idle_store) =
       Inr [(''total_space'', PyStr ''N/A''), (''used_space'', PyStr ''N/A'')]"
    using quota_absorbs_http_errors_only [of idle_store] a by simp
  have w4: "fst (get_drive_info (idle_store\<lparr>about_outcome :=
         Inr (Some \<lparr>limit = None, usage = Some ?v\<rparr>)\<rparr>)) =
       Inr [(''total_space'', PyStr ''N/A''), (''used_space'', PyStr ''2.00 KB'')]"
    using quota_absorbs_http_errors_only
      [of "idle_store\<lparr>about_outcome := Inr (Some \<lparr>limit = None, usage = Some ?v\<rparr>)\<rparr>" _ ?v "''2.00 KB''"]
      convert_bytes_2048 by simp
  have w5: "fst (get_drive_info (idle_store\<lparr>about_outcome :=
         Inr (Some \<lparr>limit = Some ?v, usage = None\<rparr>)\<rparr>)) =
       Inr [(''total_space'', PyStr ''2.00 KB''), (''used_space'', PyStr ''N/A'')]"
    using quota_absorbs_http_errors_only
      [of "idle_store\<lparr>about_outcome := Inr (Some \<lparr>limit = Some ?v, usage = None\<rparr>)\<rparr>" _ ?v "''2.00 KB''"]
      convert_bytes_2048 by simp
  have w6: "fst (get_drive_info (idle_store\<lparr>about_outcome :=
         Inr (Some \<lparr>limit = Some ?v, usage = Some ?v\<rparr>)\<rparr>)) =
       Inr [(''total_space'', PyStr ''2.00 KB''), (''used_space'', PyStr ''2.00 KB'')]"
    using quota_absorbs_http_errors_only
      [of "idle_store\<lparr>about_outcome := Inr (Some \<lparr>limit = Some ?v, usage = Some ?v\<rparr>)\<rparr>" _ ?v "''2.00 KB''" ?v "''2.00 KB''"]
      convert_bytes_2048 by simp
  show ?thesis using w1 w2 w3 w4 w5 w6 by simp
qed

text \<open>
  C6 as stated fails for huge byte counts: at \<open>2 ^ 1054\<close> bytes the quotient by
  \<open>1024 ^ 3\<close> does not fit a float, and the formatter raises \<^verbatim>\<open>OverflowError\<close>
  where the claim has it return a string.
\<close>

theorem size_format_every_integer_counterexample:
  "convert_bytes (PyInt (2 ^ 1054)) = Inl OverflowError"
  by (rule convert_bytes_overflow [of _ "2 ^ 1054"]) simp_all

text \<open>
  C6, amended. For every integer byte count \<open>b\<close>: between \<open>- (10 ^ 4300)\<close>
  (excluded) and 1024 the result is the decimal numeral of \<open>b\<close> followed by
  \<^verbatim>\<open> bytes\<close>; at or below \<open>- (10 ^ 4300)\<close> the numeral has more than 4300 digits,
  the conversion raises \<^verbatim>\<open>ValueError\<close> and the result is \<^verbatim>\<open>Invalid size\<close>; in the
  KB and MB brackets, and in the GB bracket below \<open>2 ^ 53\<close>, it is the exact quotient
  rounded to two decimals followed by the unit; in the GB bracket below
  \<open>2 ^ 1054 - 2 ^ 1000\<close> it is the \<^verbatim>\<open>.2f\<close> rendering of the float nearest to the
  quotient; from \<open>2 ^ 1054 - 2 ^ 1000\<close> on the formatter raises
  \<^verbatim>\<open>OverflowError\<close>. The lower bound of each bracket belongs to the bracket.
\<close>

theorem size_format_brackets:
  "(- (10 ^ int_max_str_digits) < b \<and> b < 1024 \<longrightarrow>
        convert_bytes (PyInt b) = Inr (str_int b @ '' bytes''))
   \<and> (b \<le> - (10 ^ int_max_str_digits) \<longrightarrow> convert_bytes (PyInt b) = Inr ''Invalid size'')
   \<and> (1024 \<le> b \<and> b < 1024 * 1024 \<longrightarrow>
        convert_bytes (PyInt b) = Inr (two_decimals b 1024 @ '' KB''))
   \<and> (1024 * 1024 \<le> b \<and> b < 1024 * 1024 * 1024 \<longrightarrow>
        convert_bytes (PyInt b) = Inr (two_decimals b (1024 * 1024) @ '' MB''))
   \<and> (1024 * 1024 * 1024 \<le> b \<and> b < 2 ^ 53 \<longrightarrow>
        convert_bytes (PyInt b) = Inr (two_decimals b (1024 * 1024 * 1024) @ '' GB''))
   \<and> (1024 * 1024 * 1024 \<le> b \<and> b < 2 ^ 1054 - 2 ^ 1000 \<longrightarrow>
        (\<exists>x. py_truediv b (1024 * 1024 * 1024) = Inr x
           \<and> convert_bytes (PyInt b) = Inr (py_format_2f x @ '' GB'')))
   \<and> (2 ^ 1054 - 2 ^ 1000 \<le> b \<longrightarrow> convert_bytes (PyInt b) = Inl OverflowError)"
proof -
  have i: "py_int (PyInt b) = Inr b" by simp
  show ?thesis
    using convert_bytes_small [OF i] convert_bytes_digit_limit [OF i] convert_bytes_kb [OF i]
      convert_bytes_mb [OF i] convert_bytes_gb_exact [OF i] convert_bytes_gb [OF i]
      convert_bytes_overflow [OF i]
    by blast
qed

text \<open>
  The values of the specification (0, 1023, 1024, 1048576 and 1073741824 bytes), a
  negative count, and the two ends of the range.
\<close>

theorem size_format_brackets_witness:
  "convert_bytes (PyInt 0) = Inr ''0 bytes''
   \<and> convert_bytes (PyInt 1023) = Inr ''1023 bytes''
   \<and> convert_bytes (PyInt (- 5)) = Inr ''-5 bytes''
   \<and> convert_bytes (PyInt (- (10 ^ int_max_str_digits))) = Inr ''Invalid size''
   \<and> convert_bytes (PyInt 1024) = Inr ''1.00 KB''
   \<and> convert_bytes (PyInt 1048576) = Inr ''1.00 MB''
   \<and> convert_bytes (PyInt 1073741824) = Inr ''1.00 GB''
   \<and> (\<exists>x. py_truediv 1073741824 (1024 * 1024 * 1024) = Inr x
         \<and> convert_bytes (PyInt 1073741824) = Inr (py_format_2f x @ '' GB''))
   \<and> convert_bytes (PyInt (2 ^ 1054 - 2 ^ 1000)) = Inl OverflowError"
proof -
  note t = size_format_brackets
  have lo: "- (10 ^ int_max_str_digits) < (0::int)"
      "- (10 ^ int_max_str_digits) < (1023::int)"
      "- (10 ^ int_max_str_digits) < (- 5::int)"
    using limit_above_bytes by linarith+
  have w0: "convert_bytes (PyInt 0) = Inr ''0 bytes''"
    using t [of 0, THEN conjunct1] lo str_int_examples by simp
  have w1: "convert_bytes (PyInt 1023) = Inr ''1023 bytes''"
    using t [of 1023, THEN conjunct1] lo str_int_examples by simp
  have w1a: "convert_bytes (PyInt (- 5)) = Inr ''-5 bytes''"
    using t [of "- 5", THEN conjunct1] lo str_int_examples by simp
  have w1b: "convert_bytes (PyInt (- (10 ^ int_max_str_digits))) = Inr ''Invalid size''"
    using t [of "- (10 ^ int_max_str_digits)", THEN conjunct2, THEN conjunct1] by (simp only: order_refl)
  have w2: "convert_bytes (PyInt 1024) = Inr ''1.00 KB''"
    using t [of 1024, THEN conjunct2, THEN conjunct2, THEN conjunct1] two_decimals_one by simp
  have w3: "convert_bytes (PyInt 1048576) = Inr ''1.00 MB''"
    using t [of 1048576, THEN conjunct2, THEN conjunct2, THEN conjunct2, THEN conjunct1]
      two_decimals_one by simp
  have w4: "convert_bytes (PyInt 1073741824) = Inr ''1.00 GB''"
    using t [of 1073741824, THEN conjunct2, THEN conjunct2, THEN conjunct2, THEN conjunct2,
        THEN conjunct1]
      two_decimals_one by simp
  have w5: "\<exists>x. py_truediv 1073741824 (1024 * 1024 * 1024) = Inr x
         \<and> convert_bytes (PyInt 1073741824) = Inr (py_format_2f x @ '' GB'')"
    using t [of 1073741824, THEN conjunct2, THEN conjunct2, THEN conjunct2, THEN conjunct2,
        THEN conjunct2, THEN conjunct1] by simp
  have w6: "convert_bytes (PyInt (2 ^ 1054 - 2 ^ 1000)) = Inl OverflowError"
    using t [of "2 ^ 1054 - 2 ^ 1000", THEN conjunct2, THEN conjunct2, THEN conjunct2,
        THEN conjunct2, THEN conjunct2, THEN conjunct2] by simp
  show ?thesis
    using w0 w1 w1a w1b w2 w3 w4 w5 w6 by blast
qed

text \<open>
  C7 as stated fails: the string of the digit 1 followed by 400 zeros is a valid
  integer of 401 digits, its quotient by \<open>1024 ^ 3\<close> does not fit a float, and the
  \<^verbatim>\<open>OverflowError\<close> is not caught by \<^verbatim>\<open>except ValueError\<close>.
\<close>

theorem size_format_never_raises_counterexample:
  "convert_bytes (PyStr (CHR ''1'' # replicate 400 (CHR ''0''))) = Inl OverflowError"
  by (rule convert_bytes_overflow [OF py_int_one_zeros]) simp_all

text \<open>
  C7, amended. The sentinel \<^verbatim>\<open>N/A\<close> yields \<^verbatim>\<open>N/A\<close>; a string that \<^verbatim>\<open>int\<close>
  rejects yields \<^verbatim>\<open>Invalid size\<close>, and \<^verbatim>\<open>int\<close> rejects every string with more than
  4300 digits; an input whose integer value is below \<open>2 ^ 1054 - 2 ^ 1000\<close> yields
  a string. The formatter catches \<^verbatim>\<open>ValueError\<close> only: an integer value from
  \<open>2 ^ 1054 - 2 ^ 1000\<close> on raises \<^verbatim>\<open>OverflowError\<close> and \<^verbatim>\<open>None\<close> raises
  \<^verbatim>\<open>TypeError\<close>.
\<close>

theorem size_format_catches_value_errors_only:
  "convert_bytes (PyStr ''N/A'') = Inr ''N/A''
   \<and> (py_int_of_str s = None \<and> s \<noteq> ''N/A'' \<longrightarrow> convert_bytes (PyStr s) = Inr ''Invalid size'')
   \<and> (int_max_str_digits < length (filter is_digit s) \<longrightarrow>
        convert_bytes (PyStr s) = Inr ''Invalid size'')
   \<and> (py_int v = Inr b \<and> b < 2 ^ 1054 - 2 ^ 1000 \<longrightarrow> (\<exists>r. convert_bytes v = Inr r))
   \<and> (py_int v = Inr b \<and> 2 ^ 1054 - 2 ^ 1000 \<le> b \<longrightarrow> convert_bytes v = Inl OverflowError)
   \<and> convert_bytes PyNone = Inl TypeError"
proof -
  have n: "convert_bytes PyNone = Inl TypeError"
    by (simp add: convert_bytes_def convert_bytes_body_def)
  have l: "convert_bytes (PyStr s) = Inr ''Invalid size''"
    if "int_max_str_digits < length (filter is_digit s)"
  proof -
    have "s \<noteq> ''N/A''" using that digits_na by auto
    then show ?thesis
      using convert_bytes_invalid [OF py_int_of_str_long [OF that]] by simp
  qed
  show ?thesis
    using convert_bytes_na convert_bytes_invalid [of s] l convert_bytes_returns [of v b]
      convert_bytes_overflow [of v b] n
    by blast
qed

text \<open>
  A word, a digit behind the separator character 28 (which \<^verbatim>\<open>int\<close> does not
  strip), 4301 digits, a small number and a huge integer.
\<close>

theorem size_format_catches_value_errors_only_witness:
  "convert_bytes (PyStr ''not-a-number'') = Inr ''Invalid size''
   \<and> convert_bytes (PyStr [CHR 0x1C, CHR ''5'']) = Inr ''Invalid size''
   \<and> convert_bytes (PyStr (replicate 4301 (CHR ''1''))) = Inr ''Invalid size''
   \<and> (\<exists>r. convert_bytes (PyStr ''2048'') = Inr r)
   \<and> convert_bytes (PyInt (2 ^ 1055)) = Inl OverflowError"
proof -
  note t = size_format_catches_value_errors_only
  have w1: "convert_bytes (PyStr ''not-a-number'') = Inr ''Invalid size''"
    using t [of "''not-a-number''" PyNone 0, THEN conjunct2, THEN conjunct1] py_int_not_a_number
    by simp
  have w1a: "convert_bytes (PyStr [CHR 0x1C, CHR ''5'']) = Inr ''Invalid size''"
    using t [of "[CHR 0x1C, CHR ''5'']" PyNone 0, THEN conjunct2, THEN conjunct1]
      py_int_separator
    by simp
  have d: "int_max_str_digits < length (filter is_digit (replicate 4301 (CHR ''1'')))"
    by (simp add: int_max_str_digits_def is_digit_def)
  have w1b: "convert_bytes (PyStr (replicate 4301 (CHR ''1''))) = Inr ''Invalid size''"
    using t [of "replicate 4301 (CHR ''1'')" PyNone 0, THEN conjunct2, THEN conjunct2,
        THEN conjunct1] d
    by (simp only: simp_thms)
  have w2: "\<exists>r. convert_bytes (PyStr ''2048'') = Inr r"
    using t [of "''x''" "PyStr ''2048''" 2048, THEN conjunct2, THEN conjunct2, THEN conjunct2,
        THEN conjunct1]
      py_int_2048 by simp
  have w3: "convert_bytes (PyInt (2 ^ 1055)) = Inl OverflowError"
    using t [of "''x''" "PyInt (2 ^ 1055)" "2 ^ 1055", THEN conjunct2, THEN conjunct2,
        THEN conjunct2, THEN conjunct2, THEN conjunct1] by simp
  show ?thesis
    using w1 w1a w1b w2 w3 by blast
qed




end
